theory Spec2Isabelle
  imports
    Main
    "HOL-Library.Multiset"
    "HOL-Library.Char_ord"
    "HOL-Library.List_Lexorder"
    "HOL-Library.Product_Lexorder"
begin

section \<open>Ninja target writer: the input-dependency phony\<close>

text \<open>
  The embedding of \<^verbatim>\<open>src/gn/ninja_target_writer.cc\<close>. Paths are strings: a
  \<^verbatim>\<open>SourceFile\<close> is a source-tree path, an \<^verbatim>\<open>OutputFile\<close> a path relative to
  the build directory (\<^verbatim>\<open>output_file.h\<close>: a wrapper around one string).
\<close>

type_synonym SourceFile = string
type_synonym OutputFile = string

text \<open>
  Modelled from the spec: \<^verbatim>\<open>label.h\<close> is not among the sources. A label is a directory,
  a name and a toolchain (itself a directory and a name); labels are ordered
  lexicographically over (dir, name, toolchain).
\<close>

record Label =
  dir :: string
  name :: string
  toolchain_dir :: string
  toolchain_name :: string

definition label_key :: "Label \<Rightarrow> string \<times> string \<times> string \<times> string" where
  "label_key l = (dir l, name l, toolchain_dir l, toolchain_name l)"

definition label_less :: "Label \<Rightarrow> Label \<Rightarrow> bool" where
  "label_less a b = (label_key a < label_key b)"

text \<open>
  Modelled from the spec: \<^verbatim>\<open>target.h\<close> is not among the sources; the output kinds are
  the ones the data model lists, and the binary kinds are the ones whose rules go to a file
  of their own.
\<close>

datatype OutputType =
    EXECUTABLE | SHARED_LIBRARY | STATIC_LIBRARY | SOURCE_SET | RUST_LIBRARY
  | RUST_PROC_MACRO | GROUP | COPY_FILES | ACTION | ACTION_FOREACH | BUNDLE_DATA
  | CREATE_BUNDLE | GENERATED_FILE

text \<open>
  A target, with the attributes the writer reads. \<^verbatim>\<open>recursive_hard_deps\<close> is a
  \<^verbatim>\<open>std::set<const Target*>\<close>: the list holds its elements in the order the set
  iterates them, which is the order of their addresses. \<^verbatim>\<open>config_inputs\<close> holds the
  \<^verbatim>\<open>inputs()\<close> of each step of the \<^verbatim>\<open>ConfigValuesIterator\<close>. A target with no
  toolchain set has \<^verbatim>\<open>toolchain = None\<close>.
\<close>

datatype Target = Target
  (label: Label)
  (output_type: OutputType)
  (sources: "SourceFile list")
  (config_inputs: "SourceFile list list")
  (script: SourceFile)
  (recursive_hard_deps: "Target list")
  (toolchain: "Toolchain option")
  (dependency_output_file_or_phony: "OutputFile option")
and Toolchain = Toolchain (deps: "Target list")

fun IsBinary :: "Target \<Rightarrow> bool" where
  "IsBinary t =
     (output_type t = EXECUTABLE \<or> output_type t = SHARED_LIBRARY \<or>
      output_type t = STATIC_LIBRARY \<or> output_type t = SOURCE_SET \<or>
      output_type t = RUST_LIBRARY \<or> output_type t = RUST_PROC_MACRO)"

text \<open>
  What the writer takes from code that is not among the sources:
  \<^verbatim>\<open>OutputFile(build_settings, source_file)\<close>, the conversion of a source file to a path
  in the build directory; \<^verbatim>\<open>GetBuildDirForTargetAsOutputFile(target, PHONY)\<close>, the
  directory of the target's phony files, ending in a slash; and
  \<^verbatim>\<open>PathOutput::WriteFile\<close>, the escaped text of one path.
\<close>

record Settings =
  OutputFile_of_source :: "SourceFile \<Rightarrow> OutputFile"
  GetBuildDirForTargetAsOutputFile :: "Label \<Rightarrow> OutputFile"
  WriteFile :: "OutputFile \<Rightarrow> string"

text \<open>\<^verbatim>\<open>PathOutput::WriteFiles\<close>: every file after one space.\<close>

definition WriteFiles :: "Settings \<Rightarrow> OutputFile list \<Rightarrow> string" where
  "WriteFiles s files = concat (map (\<lambda>f. '' '' @ WriteFile s f) files)"

definition kBuiltinToolPhony :: string where
  "kBuiltinToolPhony = ''phony''"

text \<open>A failed \<^verbatim>\<open>CHECK\<close> ends the process; it is an error value here.\<close>

datatype check_failure = Toolchain_not_set | Outs_empty

text \<open>
  The first block of \<^verbatim>\<open>WriteInputDepsPhonyAndGetDep\<close>: the input files. The script
  of an action, the configured inputs of a target that is not binary, the sources of an
  action.
\<close>

definition input_deps_sources :: "Target \<Rightarrow> SourceFile list" where
  "input_deps_sources target =
     (if output_type target = ACTION \<or> output_type target = ACTION_FOREACH
      then [script target] else []) @
     (if \<not> IsBinary target then concat (config_inputs target) else []) @
     (if output_type target = ACTION then sources target else [])"

text \<open>
  The second block: the input targets. The recursive hard deps (a bundle-data target only
  for a create-bundle target), the additional hard deps that are not among them, and the
  deps of the toolchain.
\<close>

definition input_deps_targets :: "Target \<Rightarrow> Target list \<Rightarrow> Target list \<Rightarrow> Target list" where
  "input_deps_targets target additional_hard_deps toolchain_deps =
     filter (\<lambda>t. output_type t \<noteq> BUNDLE_DATA \<or> output_type target = CREATE_BUNDLE)
       (recursive_hard_deps target) @
     filter (\<lambda>t. t \<notin> set (recursive_hard_deps target)) additional_hard_deps @
     toolchain_deps"

text \<open>
  The files of the general case: the input files in list order, then the input targets
  sorted by label, each with its dependency output when it has one. \<^verbatim>\<open>std::sort\<close> is
  any sort by the key; the insertion sort stands for it (the two agree whenever targets
  with equal labels are equal).
\<close>

definition input_deps_outs :: "Settings \<Rightarrow> SourceFile list \<Rightarrow> Target list \<Rightarrow> OutputFile list" where
  "input_deps_outs s srcs tgts =
     map (OutputFile_of_source s) srcs @
     concat (map (\<lambda>dep. case dependency_output_file_or_phony dep of
                            None \<Rightarrow> [] | Some f \<Rightarrow> [f])
                 (sort_key (\<lambda>t. label_key (label t)) tgts))"

definition input_phony_file :: "Settings \<Rightarrow> Target \<Rightarrow> OutputFile" where
  "input_phony_file s target =
     GetBuildDirForTargetAsOutputFile s (label target) @ name (label target) @ ''.inputdeps''"

text \<open>
  \<^verbatim>\<open>WriteInputDepsPhonyAndGetDep\<close>: the text written to the stream and the returned
  files, or the \<^verbatim>\<open>CHECK\<close> that failed.
\<close>

definition WriteInputDepsPhonyAndGetDep ::
  "Settings \<Rightarrow> Target \<Rightarrow> Target list \<Rightarrow> nat \<Rightarrow> check_failure + (string \<times> OutputFile list)" where
  "WriteInputDepsPhonyAndGetDep s target additional_hard_deps num_output_uses =
     (case toolchain target of
        None \<Rightarrow> Inl Toolchain_not_set
      | Some tc \<Rightarrow>
          let srcs = input_deps_sources target;
              tgts = input_deps_targets target additional_hard_deps (deps tc)
          in if length srcs + length tgts = 0 then Inr ('''', [])
             else if length srcs = 1 \<and> length tgts = 0
               then Inr ('''', [OutputFile_of_source s (hd srcs)])
             else if length srcs = 0 \<and> length tgts = 1
               then (case dependency_output_file_or_phony (hd tgts) of
                       None \<Rightarrow> Inr ('''', [])
                     | Some dep \<Rightarrow> Inr ('''', [dep]))
             else
               let outs = input_deps_outs s srcs tgts
               in if num_output_uses = 1 then Inr ('''', outs)
                  else if outs = [] then Inl Outs_empty
                  else Inr (''build '' @ WriteFile s (input_phony_file s target) @ '': '' @
                              kBuiltinToolPhony @ WriteFiles s outs @ [CHR 0x0A],
                            [input_phony_file s target]))"

text \<open>
  The emission policy as the specification words it, over the same inputs: nothing for no
  input; the one input itself when there is exactly one and the caller references it
  exactly once; in every other case the phony rule and the one-element list naming it.
\<close>

definition spec_input_deps_policy ::
  "Settings \<Rightarrow> Target \<Rightarrow> Target list \<Rightarrow> Target list \<Rightarrow> nat \<Rightarrow> string \<times> OutputFile list" where
  "spec_input_deps_policy s target additional_hard_deps toolchain_deps num_output_uses =
     (let srcs = input_deps_sources target;
          tgts = input_deps_targets target additional_hard_deps toolchain_deps;
          outs = input_deps_outs s srcs tgts
      in if length srcs + length tgts = 0 then ('''', [])
         else if length srcs + length tgts = 1 \<and> num_output_uses = 1 then ('''', outs)
         else (''build '' @ WriteFile s (input_phony_file s target) @ '': phony'' @
                 WriteFiles s outs @ [CHR 0x0A],
               [input_phony_file s target]))"

text \<open>
  Concrete inputs: a build directory two levels below the source root, phony files under
  \<^verbatim>\<open>obj/\<close>, paths that need no escaping; targets of directory \<^verbatim>\<open>//foo/\<close> in a
  toolchain with no deps.
\<close>

definition ex_settings :: Settings where
  "ex_settings =
     \<lparr> OutputFile_of_source = (\<lambda>f. ''../../'' @ drop 2 f),
       GetBuildDirForTargetAsOutputFile = (\<lambda>l. ''obj/'' @ drop 2 (dir l)),
       WriteFile = (\<lambda>f. f) \<rparr>"

definition ex_label :: "string \<Rightarrow> Label" where
  "ex_label n =
     \<lparr> dir = ''//foo/'', name = n, toolchain_dir = ''//toolchain/'', toolchain_name = ''default'' \<rparr>"

definition ex_dep :: "string \<Rightarrow> Target" where
  "ex_dep n =
     Target (ex_label n) ACTION [] [] ''//foo/gen.py'' [] (Some (Toolchain []))
       (Some (''obj/foo/'' @ n @ ''.stamp''))"

definition ex_target :: "OutputType \<Rightarrow> SourceFile list \<Rightarrow> Target list \<Rightarrow> Target" where
  "ex_target ot srcs hard_deps =
     Target (ex_label ''bar'') ot srcs [] ''//foo/script.py'' hard_deps (Some (Toolchain [])) None"

section \<open>The generated\_file target generator\<close>

text \<open>
  The embedding of \<^verbatim>\<open>generated_file_target_generator.cc\<close>.

  Modelled from the spec: \<^verbatim>\<open>value.h\<close> and \<^verbatim>\<open>err.h\<close> are not among the sources. A
  value is a tagged sum of booleans, integers, strings, lists and scopes;
  \<^verbatim>\<open>VerifyTypeIs\<close> fails with a typed error when the tag does not match. The origin of a
  value (the parse node an error is reported at) is left out.
\<close>

datatype ValueType = NONE | BOOLEAN | INTEGER | STRING | LIST | SCOPE

datatype Value =
    VBool (boolean_value: bool)
  | VInt (int_value: int)
  | VString (string_value: string)
  | VList (list_value: "Value list")
  | VScope (scope_value: "(string \<times> Value) list")

fun type_of :: "Value \<Rightarrow> ValueType" where
  "type_of (VBool _) = BOOLEAN"
| "type_of (VInt _) = INTEGER"
| "type_of (VString _) = STRING"
| "type_of (VList _) = LIST"
| "type_of (VScope _) = SCOPE"

datatype Err =
    Err (message: string) (help_text: string)
  | TypeErr (expected: ValueType) (found: ValueType)

fun is_type_error :: "Err option \<Rightarrow> bool" where
  "is_type_error (Some (TypeErr _ _)) = True"
| "is_type_error _ = False"

text \<open>\<^verbatim>\<open>v.VerifyTypeIs(t, err)\<close>: the error it stores, or none when the type is \<open>t\<close>.\<close>

definition VerifyTypeIs :: "Value \<Rightarrow> ValueType \<Rightarrow> Err option" where
  "VerifyTypeIs v t = (if type_of v = t then None else Some (TypeErr t (type_of v)))"

text \<open>
  The attributes of the target that the generator sets, and the generator (the members without their trailing underscore): its target,
  the scope it reads the variables from (\<^verbatim>\<open>scope_->GetValue(name, true)\<close> is a lookup),
  the error slot and the two flags.
\<close>

record GeneratedFile =
  target_output_type :: "OutputType option"
  target_outputs :: "string list"
  target_contents :: "Value option"
  data_keys :: "string list"
  walk_keys :: "string list"
  rebase :: bool
  output_conversion :: "Value option"

record Generator =
  g_target :: GeneratedFile
  g_scope :: "string \<rightharpoonup> Value"
  g_err :: "Err option"
  g_output_type :: OutputType
  contents_defined :: bool
  data_keys_defined :: bool

text \<open>
  Modelled from the spec: \<^verbatim>\<open>variables.h\<close> is not among the sources; the variables are
  the ones a \<^verbatim>\<open>generated_file\<close> declaration sets.
\<close>

definition kWriteValueContents :: string where
  "kWriteValueContents = ''contents''"

definition kWriteOutputConversion :: string where
  "kWriteOutputConversion = ''output_conversion''"

definition kRebase :: string where
  "kRebase = ''rebase''"

definition kDataKeys :: string where
  "kDataKeys = ''data_keys''"

definition kWalkKeys :: string where
  "kWalkKeys = ''walk_keys''"

definition FillContents :: "Generator \<Rightarrow> bool \<times> Generator" where
  "FillContents g =
     (case g_scope g kWriteValueContents of
        None \<Rightarrow> (True, g)
      | Some v \<Rightarrow>
          (True, g\<lparr>g_target := (g_target g)\<lparr>target_contents := Some v\<rparr>,
                    contents_defined := True\<rparr>))"

definition ContentsDefined :: "string \<Rightarrow> Generator \<Rightarrow> bool \<times> Generator" where
  "ContentsDefined nm g =
     (if contents_defined g
      then (True, g\<lparr>g_err := Some (Err (nm @ '' won't be used.'')
              ([CHR 0x22] @ ''contents'' @ [CHR 0x22] @
               '' is defined on this target, and so setting '' @ nm @
               '' will have no effect as no metdata collection will occur.''))\<rparr>)
      else (False, g))"

definition FillOutputConversion :: "Generator \<Rightarrow> bool \<times> Generator" where
  "FillOutputConversion g =
     (case g_scope g kWriteOutputConversion of
        None \<Rightarrow> (True, g\<lparr>g_target := (g_target g)\<lparr>output_conversion := Some (VString '''')\<rparr>\<rparr>)
      | Some v \<Rightarrow>
          (case VerifyTypeIs v STRING of
             Some e \<Rightarrow> (False, g\<lparr>g_err := Some e\<rparr>)
           | None \<Rightarrow> (True, g\<lparr>g_target := (g_target g)\<lparr>output_conversion := Some v\<rparr>\<rparr>)))"

definition FillRebase :: "Generator \<Rightarrow> bool \<times> Generator" where
  "FillRebase g =
     (case g_scope g kRebase of
        None \<Rightarrow> (True, g)
      | Some v \<Rightarrow>
          (case ContentsDefined kRebase g of
             (True, g') \<Rightarrow> (False, g')
           | (False, g') \<Rightarrow>
               (case VerifyTypeIs v BOOLEAN of
                  Some e \<Rightarrow> (False, g'\<lparr>g_err := Some e\<rparr>)
                | None \<Rightarrow> (True, g'\<lparr>g_target := (g_target g')\<lparr>rebase := boolean_value v\<rparr>\<rparr>))))"

text \<open>
  The loop of \<^verbatim>\<open>FillDataKeys\<close>: every key is verified and pushed in turn; the keys
  before the first one that is not a string stay pushed.
\<close>

fun push_data_keys :: "Value list \<Rightarrow> Generator \<Rightarrow> bool \<times> Generator" where
  "push_data_keys [] g = (True, g)"
| "push_data_keys (v # vs) g =
     (case VerifyTypeIs v STRING of
        Some e \<Rightarrow> (False, g\<lparr>g_err := Some e\<rparr>)
      | None \<Rightarrow>
          push_data_keys vs
            (g\<lparr>g_target := (g_target g)\<lparr>data_keys := data_keys (g_target g) @ [string_value v]\<rparr>\<rparr>))"

definition FillDataKeys :: "Generator \<Rightarrow> bool \<times> Generator" where
  "FillDataKeys g =
     (case g_scope g kDataKeys of
        None \<Rightarrow> (True, g)
      | Some v \<Rightarrow>
          (case ContentsDefined kDataKeys g of
             (True, g') \<Rightarrow> (False, g')
           | (False, g') \<Rightarrow>
               (case VerifyTypeIs v LIST of
                  Some e \<Rightarrow> (False, g'\<lparr>g_err := Some e\<rparr>)
                | None \<Rightarrow>
                    (case push_data_keys (list_value v) g' of
                       (False, g'') \<Rightarrow> (False, g'')
                     | (True, g'') \<Rightarrow> (True, g''\<lparr>data_keys_defined := True\<rparr>)))))"

text \<open>The loop of \<^verbatim>\<open>FillWalkKeys\<close>, of the same shape.\<close>

fun push_walk_keys :: "Value list \<Rightarrow> Generator \<Rightarrow> bool \<times> Generator" where
  "push_walk_keys [] g = (True, g)"
| "push_walk_keys (v # vs) g =
     (case VerifyTypeIs v STRING of
        Some e \<Rightarrow> (False, g\<lparr>g_err := Some e\<rparr>)
      | None \<Rightarrow>
          push_walk_keys vs
            (g\<lparr>g_target := (g_target g)\<lparr>walk_keys := walk_keys (g_target g) @ [string_value v]\<rparr>\<rparr>))"

text \<open>
  \<^verbatim>\<open>FillWalkKeys\<close>: a value that is set together with contents is an error; no value
  gives the default, a list holding the empty string; otherwise the value is pulled and
  validated.
\<close>

definition FillWalkKeys :: "Generator \<Rightarrow> bool \<times> Generator" where
  "FillWalkKeys g =
     (case g_scope g kWalkKeys of
        None \<Rightarrow> (True, g\<lparr>g_target := (g_target g)\<lparr>walk_keys := walk_keys (g_target g) @ ['''']\<rparr>\<rparr>)
      | Some v \<Rightarrow>
          (case ContentsDefined kWalkKeys g of
             (True, g') \<Rightarrow> (False, g')
           | (False, g') \<Rightarrow>
               (case VerifyTypeIs v LIST of
                  Some e \<Rightarrow> (False, g'\<lparr>g_err := Some e\<rparr>)
                | None \<Rightarrow> push_walk_keys (list_value v) g')))"

text \<open>
  \<^verbatim>\<open>DoRun\<close>. \<^verbatim>\<open>FillOutputs\<close> belongs to the base class, which is not among the
  sources: it is a parameter.
\<close>

definition DoRun :: "(Generator \<Rightarrow> bool \<times> Generator) \<Rightarrow> Generator \<Rightarrow> Generator" where
  "DoRun FillOutputs g0 =
     (let g = g0\<lparr>g_target := (g_target g0)\<lparr>target_output_type := Some (g_output_type g0)\<rparr>\<rparr> in
      case FillOutputs g of (False, g) \<Rightarrow> g | (True, g) \<Rightarrow>
      if length (target_outputs (g_target g)) \<noteq> 1
      then g\<lparr>g_err := Some (Err ''generated_file target must have exactly one output.''
             (''You must specify exactly one value in the '' @ [CHR 0x22] @ ''outputs'' @ [CHR 0x22] @
              '' array for the destination of the write'' @ [CHR 0x0A] @ ''(see '' @ [CHR 0x22] @
              ''gn help generated_file'' @ [CHR 0x22] @ '').''))\<rparr>
      else
      case FillContents g of (False, g) \<Rightarrow> g | (True, g) \<Rightarrow>
      case FillDataKeys g of (False, g) \<Rightarrow> g | (True, g) \<Rightarrow>
      if \<not> contents_defined g \<and> \<not> data_keys_defined g
      then g\<lparr>g_err := Some (Err ''Either contents or data_keys should be set.''
             (''The generated_file target requires either the '' @ [CHR 0x22] @ ''contents'' @
              [CHR 0x22] @ '' variable or the '' @ [CHR 0x22] @ ''data_keys'' @ [CHR 0x22] @
              '' variable be set. See '' @ [CHR 0x22] @ ''gn help generated_file'' @ [CHR 0x22] @
              ''.''))\<rparr>
      else
      case FillRebase g of (False, g) \<Rightarrow> g | (True, g) \<Rightarrow>
      case FillWalkKeys g of (False, g) \<Rightarrow> g | (True, g) \<Rightarrow>
      snd (FillOutputConversion g))"

text \<open>
  Concrete inputs: a generator on a newly constructed target, reading the given variables,
  and a \<^verbatim>\<open>FillOutputs\<close> that finds one output.
\<close>

definition ex_generator :: "(string \<times> Value) list \<Rightarrow> Generator" where
  "ex_generator vars =
     \<lparr> g_target = \<lparr> target_output_type = None, target_outputs = [], target_contents = None,
                      data_keys = [], walk_keys = [], rebase = False, output_conversion = None \<rparr>,
       g_scope = map_of vars, g_err = None, g_output_type = GENERATED_FILE,
       contents_defined = False, data_keys_defined = False \<rparr>"

definition ex_FillOutputs :: "Generator \<Rightarrow> bool \<times> Generator" where
  "ex_FillOutputs g =
     (True, g\<lparr>g_target := (g_target g)\<lparr>target_outputs := [''//out/foo.json'']\<rparr>\<rparr>)"

section \<open>The metadata walk\<close>

text \<open>
  Modelled from the spec: \<^verbatim>\<open>metadata.cc\<close>, \<^verbatim>\<open>metadata_walk.cc\<close> and
  \<^verbatim>\<open>target.cc\<close> are not among the sources; the sources hold the declaration of
  \<^verbatim>\<open>Metadata::walk\<close> (\<^verbatim>\<open>metadata.h\<close>) and the tests of \<^verbatim>\<open>WalkMetadata\<close>. The
  definitions of this section follow the specification of the walk: a metadata container
  maps a key to a list of values and carries the source directory for rebasing; a target has
  a label (its user-visible name), its metadata and its public, private and data deps. The
  dependency graph is acyclic, so a target holds its deps as subterms, and two targets are
  the same target when they are equal.
\<close>

record Metadata =
  contents :: "string \<rightharpoonup> Value list"
  source_dir :: string

datatype MetaTarget = MetaTarget
  (target_label: string)
  (metadata: Metadata)
  (public_deps: "MetaTarget list")
  (private_deps: "MetaTarget list")
  (data_deps: "MetaTarget list")

definition all_deps :: "MetaTarget \<Rightarrow> MetaTarget list" where
  "all_deps t = public_deps t @ private_deps t @ data_deps t"

text \<open>Modelled from the spec: the direct and transitive dependencies of a target.\<close>

fun dependencies :: "MetaTarget \<Rightarrow> MetaTarget list" where
  "dependencies (MetaTarget l m pub priv dat) =
     concat (map (\<lambda>d. d # dependencies d) (pub @ priv @ dat))"

text \<open>
  The arguments of a walk. \<^verbatim>\<open>rebase_path\<close> stands for the path rebasing of
  \<^verbatim>\<open>filesystem_utils\<close>, which is not among the sources: it takes the source directory
  of the metadata and a string value.
\<close>

record WalkArgs =
  rebase_path :: "string \<Rightarrow> string \<Rightarrow> string"
  keys_to_extract :: "string list"
  keys_to_walk :: "string list"
  rebase_files :: bool

definition rebase_value :: "(string \<Rightarrow> string \<Rightarrow> string) \<Rightarrow> string \<Rightarrow> Value \<Rightarrow> Value" where
  "rebase_value rp d v = (case v of VString s \<Rightarrow> VString (rp d s) | _ \<Rightarrow> v)"

text \<open>
  Modelled from the spec: for each data key that the metadata holds, its list elements are
  appended to the result, the string elements rebased when \<^verbatim>\<open>rebase_files\<close> is set.
\<close>

definition extract_values :: "WalkArgs \<Rightarrow> Metadata \<Rightarrow> Value list" where
  "extract_values a md =
     concat (map (\<lambda>k. case contents md k of
                         None \<Rightarrow> []
                       | Some vs \<Rightarrow>
                           if rebase_files a then map (rebase_value (rebase_path a) (source_dir md)) vs
                           else vs)
                 (keys_to_extract a))"

text \<open>
  Modelled from the spec: for each walk key the metadata is consulted for a list of label
  strings. The empty string stands for all the deps of the target: it is the entry of the
  walk key \<^verbatim>\<open>""\<close> (the default \<^verbatim>\<open>[""]\<close> walks everything) and of an empty list of
  walk keys (the test \<^verbatim>\<open>CollectWithRecurse\<close> recurses with no walk key).
  \<^verbatim>\<open>walk_key_values\<close> are the values the metadata holds under the walk keys.
\<close>

definition key_entries :: "Metadata \<Rightarrow> string \<Rightarrow> Value list" where
  "key_entries md w =
     (if w = [] then [VString []] else []) @
     (case contents md w of None \<Rightarrow> [] | Some vs \<Rightarrow> vs)"

definition walk_entries :: "WalkArgs \<Rightarrow> Metadata \<Rightarrow> Value list" where
  "walk_entries a md =
     (if keys_to_walk a = [] then [VString []]
      else concat (map (key_entries md) (keys_to_walk a)))"

definition walk_key_values :: "WalkArgs \<Rightarrow> Metadata \<Rightarrow> Value list" where
  "walk_key_values a md =
     concat (map (\<lambda>w. case contents md w of None \<Rightarrow> [] | Some vs \<Rightarrow> vs) (keys_to_walk a))"

text \<open>
  The entries are read as strings; \<^verbatim>\<open>metadata.h\<close> says that the categories of values
  are verified at walk time, so an entry that is not a string is a type error.
\<close>

fun label_strings :: "Value list \<Rightarrow> Err + string list" where
  "label_strings [] = Inr []"
| "label_strings (v # vs) =
     (case VerifyTypeIs v STRING of
        Some e \<Rightarrow> Inl e
      | None \<Rightarrow> (case label_strings vs of Inl e \<Rightarrow> Inl e | Inr ls \<Rightarrow> Inr (string_value v # ls)))"

definition next_walk_keys :: "WalkArgs \<Rightarrow> Metadata \<Rightarrow> Err + string list" where
  "next_walk_keys a md = label_strings (walk_entries a md)"

text \<open>
  Modelled from the spec: \<^verbatim>\<open>Metadata::walk\<close>, declared in \<^verbatim>\<open>metadata.h\<close>: the keys
  of the targets to walk next and the collected values, or the error.
\<close>

definition walk :: "WalkArgs \<Rightarrow> Metadata \<Rightarrow> Err + (string list \<times> Value list)" where
  "walk a md =
     (case next_walk_keys a md of
        Inl e \<Rightarrow> Inl e
      | Inr nk \<Rightarrow> Inr (nk, extract_values a md))"

text \<open>
  Modelled from the spec: a non-empty entry must resolve to a direct or transitive
  dependency of the target, and the walk fails with the fixed message otherwise; the empty
  entry continues through all the deps of the target.
\<close>

definition resolve :: "string \<Rightarrow> MetaTarget \<Rightarrow> MetaTarget option" where
  "resolve e t = find (\<lambda>d. target_label d = e) (dependencies t)"

definition barrier_error :: "string \<Rightarrow> MetaTarget \<Rightarrow> Err" where
  "barrier_error e t =
     Err (''I was expecting '' @ e @ '' to be a dependency of '' @ target_label t @
          ''. Make sure it's included in the deps or data_deps.'') ''''"

definition entry_targets :: "MetaTarget \<Rightarrow> string \<Rightarrow> Err + MetaTarget list" where
  "entry_targets t e =
     (if e = [] then Inr (all_deps t)
      else case resolve e t of None \<Rightarrow> Inl (barrier_error e t) | Some d \<Rightarrow> Inr [d])"

text \<open>
  Modelled from the spec: the depth-first walk. The state is the list of the targets walked
  so far, in first-visit order, and the values collected so far; a failure carries the
  error and the targets walked until then. \<^verbatim>\<open>walk_target\<close> collects from a target that
  has just been added to the walked list and goes on to its entries; \<^verbatim>\<open>walk_next\<close>
  handles the entries in turn; \<^verbatim>\<open>walk_deps\<close> visits each target of a list that has not
  been walked yet.
\<close>

type_synonym walk_state = "MetaTarget list \<times> Value list"
type_synonym walk_result = "(Err \<times> MetaTarget list) + walk_state"

function walk_target :: "WalkArgs \<Rightarrow> MetaTarget \<Rightarrow> walk_state \<Rightarrow> walk_result"
  and walk_next :: "WalkArgs \<Rightarrow> MetaTarget \<Rightarrow> string list \<Rightarrow> walk_state \<Rightarrow> walk_result"
  and walk_deps :: "WalkArgs \<Rightarrow> MetaTarget list \<Rightarrow> walk_state \<Rightarrow> walk_result"
where
  "walk_target a t (walked, result) =
     (case walk a (metadata t) of
        Inl e \<Rightarrow> Inl (e, walked)
      | Inr (nk, vals) \<Rightarrow> walk_next a t nk (walked, result @ vals))"
| "walk_next a t [] st = Inr st"
| "walk_next a t (e # es) (walked, result) =
     (case entry_targets t e of
        Inl err \<Rightarrow> Inl (err, walked)
      | Inr ds \<Rightarrow>
          (case walk_deps a ds (walked, result) of
             Inl x \<Rightarrow> Inl x
           | Inr st \<Rightarrow> walk_next a t es st))"
| "walk_deps a [] st = Inr st"
| "walk_deps a (d # ds) (walked, result) =
     (if d \<in> set walked then walk_deps a ds (walked, result)
      else (case walk_target a d (walked @ [d], result) of
              Inl x \<Rightarrow> Inl x
            | Inr st \<Rightarrow> walk_deps a ds st))"
  by pat_completeness auto

termination
proof -
  have member: "size d \<le> size_list size xs" if "d \<in> set xs" for d :: MetaTarget and xs
    by (rule size_list_estimation' [where f = size and y = "size d" and x = d])
       (rule that, rule order_refl)
  have below: "size d < size t" if "d \<in> set (dependencies t)" for d t
    using that
  proof (induction t arbitrary: d rule: dependencies.induct)
    case (1 l m pub priv dat)
    from "1.prems" obtain c where c: "c \<in> set (pub @ priv @ dat)"
      and d: "d = c \<or> d \<in> set (dependencies c)"
      by auto
    from c have "size c < size (MetaTarget l m pub priv dat)"
      by (auto dest!: member)
    moreover from d c "1.IH" have "size d \<le> size c"
      by (auto intro: less_imp_le)
    ultimately show ?case by simp
  qed
  have direct: "Suc (sum_list (map size (all_deps t))) \<le> size t" for t
    by (cases t) (simp add: all_deps_def size_list_conv_sum_list)
  have resolved: "size d < size t" if "resolve e t = Some d" for e t d
    using that by (auto simp: resolve_def find_Some_iff intro: below)
  have entry: "Suc (sum_list (map size ds)) \<le> size t" if "entry_targets t e = Inr ds" for t e ds
    using that direct [of t]
    by (auto simp: entry_targets_def split: if_splits option.splits dest!: resolved)
  show ?thesis
    by (relation "inv_image (less_than <*lex*> less_than <*lex*> less_than)
         (\<lambda>x. case x of
            Inl (a, t, st) \<Rightarrow> (size t, 2::nat, 0::nat)
          | Inr (Inl (a, t, es, st)) \<Rightarrow> (size t, 1, length es)
          | Inr (Inr (a, ds, st)) \<Rightarrow> (Suc (sum_list (map size ds)), 0, length ds))")
       (auto dest!: entry simp: le_eq_less_or_eq)
qed

text \<open>
  Modelled from the spec: \<^verbatim>\<open>WalkMetadata\<close>. The seeds are walked in order; the outputs
  are the flat list of values, the walked targets and the error. A failed walk returns the
  empty result and a populated error.
\<close>

definition WalkMetadata ::
  "WalkArgs \<Rightarrow> MetaTarget list \<Rightarrow> Value list \<times> MetaTarget list \<times> Err option" where
  "WalkMetadata a targets_to_walk =
     (case walk_deps a targets_to_walk ([], []) of
        Inl (e, walked) \<Rightarrow> ([], walked, Some e)
      | Inr (walked, result) \<Rightarrow> (result, walked, None))"

text \<open>
  Notions the properties of the walk are stated and proved with: the targets that the
  entries of a target name; the targets of one entry, as a set; the values collected from a
  list of targets; a target all of whose entries resolve; the relation between the states
  before and after a part of a successful walk; the relation between the walked lists
  before and after a part of any walk; a failure that is the unresolved entry of a walked
  target; and a failure that is the type error of the entries of a walked target.
\<close>

definition named_by :: "WalkArgs \<Rightarrow> MetaTarget \<Rightarrow> MetaTarget list" where
  "named_by a t =
     (case next_walk_keys a (metadata t) of
        Inl _ \<Rightarrow> []
      | Inr nk \<Rightarrow> concat (map (\<lambda>e. case entry_targets t e of Inl _ \<Rightarrow> [] | Inr ds \<Rightarrow> ds) nk))"

definition entry_set :: "MetaTarget \<Rightarrow> string \<Rightarrow> MetaTarget set" where
  "entry_set t e = (case entry_targets t e of Inl _ \<Rightarrow> {} | Inr ds \<Rightarrow> set ds)"

definition exs :: "WalkArgs \<Rightarrow> MetaTarget list \<Rightarrow> Value list" where
  "exs a N = concat (map (\<lambda>u. extract_values a (metadata u)) N)"

definition entries_ok :: "WalkArgs \<Rightarrow> MetaTarget \<Rightarrow> bool" where
  "entries_ok a t =
     (case next_walk_keys a (metadata t) of
        Inl _ \<Rightarrow> False
      | Inr nk \<Rightarrow> list_all (\<lambda>e. case entry_targets t e of Inl _ \<Rightarrow> False | Inr _ \<Rightarrow> True) nk)"

definition walk_inv ::
  "WalkArgs \<Rightarrow> MetaTarget set \<Rightarrow> walk_state \<Rightarrow> Value list \<Rightarrow> walk_state \<Rightarrow> bool" where
  "walk_inv a roots st pre st' =
     (\<exists>N. fst st' = fst st @ N \<and> snd st' = snd st @ pre @ exs a N \<and>
          (\<forall>n\<in>set N. n \<in> roots \<or> (\<exists>u\<in>set N. n \<in> set (named_by a u))) \<and>
          roots \<subseteq> set (fst st') \<and>
          (\<forall>u\<in>set N. set (named_by a u) \<subseteq> set (fst st')) \<and>
          (\<forall>u\<in>set N. entries_ok a u) \<and>
          (distinct (fst st) \<longrightarrow> distinct (fst st')))"

definition failure_at :: "WalkArgs \<Rightarrow> Err \<Rightarrow> MetaTarget list \<Rightarrow> bool" where
  "failure_at a x W =
     (\<exists>u\<in>set W. \<exists>nk e. next_walk_keys a (metadata u) = Inr nk \<and> e \<in> set nk \<and>
                          entry_targets u e = Inl x)"

definition type_failure_at :: "WalkArgs \<Rightarrow> Err \<Rightarrow> MetaTarget list \<Rightarrow> bool" where
  "type_failure_at a x W = (\<exists>u\<in>set W. next_walk_keys a (metadata u) = Inl x)"

definition walk_prov ::
  "WalkArgs \<Rightarrow> MetaTarget set \<Rightarrow> MetaTarget list \<Rightarrow> MetaTarget list \<Rightarrow> bool" where
  "walk_prov a roots W W' =
     (\<exists>N. W' = W @ N \<and>
          (\<forall>n\<in>set N. n \<in> roots \<or> (\<exists>u\<in>set N. n \<in> set (named_by a u))) \<and>
          (distinct W \<longrightarrow> distinct W'))"

text \<open>
  Concrete inputs, from the tests of the walk: the targets of \<^verbatim>\<open>CollectWithBarrier\<close>
  (\<^verbatim>\<open>//foo:one\<close> with public deps \<^verbatim>\<open>//foo:two\<close> and \<^verbatim>\<open>//foo:three\<close>) and the
  target of \<^verbatim>\<open>CollectWithError\<close>; no rebasing. Two variants of them:
  \<^verbatim>\<open>//foo:one\<close> of \<^verbatim>\<open>CollectWithBarrier\<close> with the empty string as its only walk-key
  value, and the target of \<^verbatim>\<open>CollectWithError\<close> with an integer after the label among
  its walk-key values.
\<close>

definition ex_metadata :: "(string \<times> Value list) list \<Rightarrow> Metadata" where
  "ex_metadata kvs = \<lparr> contents = map_of kvs, source_dir = [] \<rparr>"

definition ex_two :: MetaTarget where
  "ex_two = MetaTarget ''//foo:two'' (ex_metadata [(''a'', [VString ''bar''])]) [] [] []"

definition ex_three :: MetaTarget where
  "ex_three = MetaTarget ''//foo:three'' (ex_metadata [(''a'', [VString ''baz''])]) [] [] []"

definition ex_one :: MetaTarget where
  "ex_one =
     MetaTarget ''//foo:one''
       (ex_metadata [(''a'', [VString ''foo'']), (''walk'', [VString ''//foo:two''])])
       [ex_two, ex_three] [] []"

definition ex_missing :: MetaTarget where
  "ex_missing =
     MetaTarget ''//foo:one''
       (ex_metadata [(''a'', [VString ''foo'']), (''walk'', [VString ''//foo:missing''])])
       [] [] []"

definition ex_open :: MetaTarget where
  "ex_open =
     MetaTarget ''//foo:one''
       (ex_metadata [(''a'', [VString ''foo'']), (''walk'', [VString ''''])])
       [ex_two, ex_three] [] []"

definition ex_mistyped :: MetaTarget where
  "ex_mistyped =
     MetaTarget ''//foo:one''
       (ex_metadata [(''a'', [VString ''foo'']), (''walk'', [VString ''//foo:missing'', VInt 1])])
       [] [] []"

definition ex_args :: "string list \<Rightarrow> string list \<Rightarrow> WalkArgs" where
  "ex_args dk wk =
     \<lparr> rebase_path = (\<lambda>d s. s), keys_to_extract = dk, keys_to_walk = wk, rebase_files = False \<rparr>"

section \<open>Properties of the input-dependency phony\<close>

lemmas ex_writer_defs = ex_settings_def ex_label_def ex_dep_def ex_target_def

lemmas writer_defs = WriteInputDepsPhonyAndGetDep_def input_deps_sources_def
  input_deps_targets_def input_deps_outs_def input_phony_file_def label_key_def WriteFiles_def
  kBuiltinToolPhony_def

lemma input_deps_outs_order:
  "\<exists>ts. mset ts = mset tgts \<and> sorted (map (\<lambda>t. label_key (label t)) ts) \<and>
        input_deps_outs s srcs tgts =
          map (OutputFile_of_source s) srcs @
          concat (map (\<lambda>t. case dependency_output_file_or_phony t of None \<Rightarrow> [] | Some f \<Rightarrow> [f]) ts)"
  by (rule exI [where x = "sort_key (\<lambda>t. label_key (label t)) tgts"])
     (simp add: input_deps_outs_def)

text \<open>
  C3, as amended. For a target with a toolchain, \<^verbatim>\<open>WriteInputDepsPhonyAndGetDep\<close> writes
  nothing and returns the empty list when there is no input; with exactly one input it
  writes nothing and returns that input (the file, or the dependency output of the target,
  nothing for a target that has none), however often the caller references it; with two or
  more inputs referenced once it writes nothing and returns the files of the inputs; with
  two or more inputs referenced otherwise, one of them at least having a file, it writes the
  phony rule named after the target and ending in \<^verbatim>\<open>.inputdeps\<close>, listing those files,
  and returns the one-element list naming the phony. The files are the input files in list
  order, then the dependency outputs of the input targets sorted by label.
\<close>

theorem WriteInputDepsPhonyAndGetDep_policy:
  assumes tc: "toolchain target = Some tc"
  shows
    "(input_deps_sources target = [] \<and> input_deps_targets target add (deps tc) = [] \<longrightarrow>
        WriteInputDepsPhonyAndGetDep s target add n = Inr ('''', [])) \<and>
     (\<forall>src. input_deps_sources target = [src] \<and> input_deps_targets target add (deps tc) = [] \<longrightarrow>
        WriteInputDepsPhonyAndGetDep s target add n = Inr ('''', [OutputFile_of_source s src])) \<and>
     (\<forall>dep. input_deps_sources target = [] \<and> input_deps_targets target add (deps tc) = [dep] \<longrightarrow>
        WriteInputDepsPhonyAndGetDep s target add n =
          Inr ('''', case dependency_output_file_or_phony dep of None \<Rightarrow> [] | Some f \<Rightarrow> [f])) \<and>
     (2 \<le> length (input_deps_sources target) + length (input_deps_targets target add (deps tc)) \<and>
      n = 1 \<longrightarrow>
        WriteInputDepsPhonyAndGetDep s target add n =
          Inr ('''', input_deps_outs s (input_deps_sources target)
                       (input_deps_targets target add (deps tc)))) \<and>
     (2 \<le> length (input_deps_sources target) + length (input_deps_targets target add (deps tc)) \<and>
      n \<noteq> 1 \<and>
      input_deps_outs s (input_deps_sources target) (input_deps_targets target add (deps tc)) \<noteq> [] \<longrightarrow>
        WriteInputDepsPhonyAndGetDep s target add n =
          Inr (''build '' @
                 WriteFile s (GetBuildDirForTargetAsOutputFile s (label target) @
                              name (label target) @ ''.inputdeps'') @
                 '': phony'' @
                 concat (map (\<lambda>f. '' '' @ WriteFile s f)
                   (input_deps_outs s (input_deps_sources target)
                      (input_deps_targets target add (deps tc)))) @
                 [CHR 0x0A],
               [GetBuildDirForTargetAsOutputFile s (label target) @ name (label target) @
                ''.inputdeps''])) \<and>
     (\<exists>ts. mset ts = mset (input_deps_targets target add (deps tc)) \<and>
           sorted (map (\<lambda>t. label_key (label t)) ts) \<and>
           input_deps_outs s (input_deps_sources target) (input_deps_targets target add (deps tc)) =
             map (OutputFile_of_source s) (input_deps_sources target) @
             concat (map (\<lambda>t. case dependency_output_file_or_phony t of
                                 None \<Rightarrow> [] | Some f \<Rightarrow> [f]) ts))"
proof (intro conjI allI impI)
  show "\<exists>ts. mset ts = mset (input_deps_targets target add (deps tc)) \<and>
           sorted (map (\<lambda>t. label_key (label t)) ts) \<and>
           input_deps_outs s (input_deps_sources target) (input_deps_targets target add (deps tc)) =
             map (OutputFile_of_source s) (input_deps_sources target) @
             concat (map (\<lambda>t. case dependency_output_file_or_phony t of
                                 None \<Rightarrow> [] | Some f \<Rightarrow> [f]) ts)"
    by (rule input_deps_outs_order)
qed (auto simp: WriteInputDepsPhonyAndGetDep_def tc Let_def input_phony_file_def WriteFiles_def
      kBuiltinToolPhony_def split: option.splits)

theorem WriteInputDepsPhonyAndGetDep_policy_witness:
  "WriteInputDepsPhonyAndGetDep ex_settings (ex_target EXECUTABLE [] []) [] 2 = Inr ('''', []) \<and>
   WriteInputDepsPhonyAndGetDep ex_settings (ex_target ACTION_FOREACH [] []) [] 2 =
     Inr ('''', [''../../foo/script.py'']) \<and>
   WriteInputDepsPhonyAndGetDep ex_settings (ex_target EXECUTABLE [] [ex_dep ''aa'']) [] 2 =
     Inr ('''', [''obj/foo/aa.stamp'']) \<and>
   WriteInputDepsPhonyAndGetDep ex_settings
       (ex_target EXECUTABLE [] [ex_dep ''zz'', ex_dep ''aa'']) [] 1 =
     Inr ('''', [''obj/foo/aa.stamp'', ''obj/foo/zz.stamp'']) \<and>
   WriteInputDepsPhonyAndGetDep ex_settings
       (ex_target EXECUTABLE [] [ex_dep ''zz'', ex_dep ''aa'']) [] 2 =
     Inr (''build obj/foo/bar.inputdeps: phony obj/foo/aa.stamp obj/foo/zz.stamp'' @ [CHR 0x0A],
          [''obj/foo/bar.inputdeps''])"
proof -
  have tc: "toolchain (ex_target ot srcs hs) = Some (Toolchain [])" for ot srcs hs
    by (simp add: ex_target_def)
  have nm: "GetBuildDirForTargetAsOutputFile ex_settings (label (ex_target ot srcs hs)) @
            name (label (ex_target ot srcs hs)) @ ''.inputdeps'' = ''obj/foo/bar.inputdeps''"
    for ot srcs hs
    by (simp add: ex_settings_def ex_target_def ex_label_def)
  have wf: "WriteFile ex_settings = (\<lambda>f. f)" and os: "OutputFile_of_source ex_settings = (\<lambda>f. ''../../'' @ drop 2 f)"
    by (simp_all add: ex_settings_def)
  have s0: "input_deps_sources (ex_target EXECUTABLE [] hs) = []" for hs
    by (simp add: input_deps_sources_def ex_target_def)
  have s1: "input_deps_sources (ex_target ACTION_FOREACH [] []) = [''//foo/script.py'']"
    by (simp add: input_deps_sources_def ex_target_def)
  have t0: "input_deps_targets (ex_target ot [] []) [] [] = []" for ot
    by (simp add: input_deps_targets_def ex_target_def)
  have t1: "input_deps_targets (ex_target EXECUTABLE [] [ex_dep ''aa'']) [] [] = [ex_dep ''aa'']"
    by (simp add: input_deps_targets_def ex_target_def ex_dep_def)
  have t2: "input_deps_targets (ex_target EXECUTABLE [] [ex_dep ''zz'', ex_dep ''aa'']) [] [] =
              [ex_dep ''zz'', ex_dep ''aa'']"
    by (simp add: input_deps_targets_def ex_target_def ex_dep_def)
  have d1: "dependency_output_file_or_phony (ex_dep ''aa'') = Some ''obj/foo/aa.stamp''"
    by (simp add: ex_dep_def)
  have outs: "input_deps_outs ex_settings [] [ex_dep ''zz'', ex_dep ''aa''] =
                [''obj/foo/aa.stamp'', ''obj/foo/zz.stamp'']"
    by (simp add: input_deps_outs_def ex_writer_defs label_key_def)
  from WriteInputDepsPhonyAndGetDep_policy [OF tc, of EXECUTABLE "[]" "[]" "[]" ex_settings 2]
  have a: "WriteInputDepsPhonyAndGetDep ex_settings (ex_target EXECUTABLE [] []) [] 2 = Inr ('''', [])"
    by (simp add: s0 t0)
  from WriteInputDepsPhonyAndGetDep_policy [OF tc, of ACTION_FOREACH "[]" "[]" "[]" ex_settings 2]
  have b: "WriteInputDepsPhonyAndGetDep ex_settings (ex_target ACTION_FOREACH [] []) [] 2 =
     Inr ('''', [''../../foo/script.py''])"
    by (simp add: s1 t0 os)
  from WriteInputDepsPhonyAndGetDep_policy [OF tc, of EXECUTABLE "[]" "[ex_dep ''aa'']" "[]" ex_settings 2]
  have c: "WriteInputDepsPhonyAndGetDep ex_settings (ex_target EXECUTABLE [] [ex_dep ''aa'']) [] 2 =
     Inr ('''', [''obj/foo/aa.stamp''])"
    by (simp add: s0 t1 d1)
  from WriteInputDepsPhonyAndGetDep_policy
         [OF tc, of EXECUTABLE "[]" "[ex_dep ''zz'', ex_dep ''aa'']" "[]" ex_settings 1]
  have d: "WriteInputDepsPhonyAndGetDep ex_settings
       (ex_target EXECUTABLE [] [ex_dep ''zz'', ex_dep ''aa'']) [] 1 =
     Inr ('''', [''obj/foo/aa.stamp'', ''obj/foo/zz.stamp''])"
    by (simp add: s0 t2 outs)
  from WriteInputDepsPhonyAndGetDep_policy
         [OF tc, of EXECUTABLE "[]" "[ex_dep ''zz'', ex_dep ''aa'']" "[]" ex_settings 2]
  have e: "WriteInputDepsPhonyAndGetDep ex_settings
       (ex_target EXECUTABLE [] [ex_dep ''zz'', ex_dep ''aa'']) [] 2 =
     Inr (''build obj/foo/bar.inputdeps: phony obj/foo/aa.stamp obj/foo/zz.stamp'' @ [CHR 0x0A],
          [''obj/foo/bar.inputdeps''])"
    by (simp add: s0 t2 outs nm wf)
  show ?thesis by (intro conjI) (fact a, fact b, fact c, fact d, fact e)
qed

theorem spec_input_deps_policy_counterexample:
  "WriteInputDepsPhonyAndGetDep ex_settings (ex_target ACTION [''//foo/a.in''] []) [] 1 =
     Inr ('''', [''../../foo/script.py'', ''../../foo/a.in'']) \<and>
   spec_input_deps_policy ex_settings (ex_target ACTION [''//foo/a.in''] []) [] [] 1 =
     (''build obj/foo/bar.inputdeps: phony ../../foo/script.py ../../foo/a.in'' @ [CHR 0x0A],
      [''obj/foo/bar.inputdeps'']) \<and>
   WriteInputDepsPhonyAndGetDep ex_settings (ex_target ACTION_FOREACH [] []) [] 2 =
     Inr ('''', [''../../foo/script.py'']) \<and>
   spec_input_deps_policy ex_settings (ex_target ACTION_FOREACH [] []) [] [] 2 =
     (''build obj/foo/bar.inputdeps: phony ../../foo/script.py'' @ [CHR 0x0A],
      [''obj/foo/bar.inputdeps''])"
  by (simp add: writer_defs spec_input_deps_policy_def ex_writer_defs)

lemma label_key_inj: "label_key a = label_key b \<Longrightarrow> a = b"
  by (cases a, cases b) (simp add: label_key_def)

lemma input_deps_targets_mset:
  assumes "set hs' = set hs" and "distinct hs" and "distinct hs'"
  shows "mset (input_deps_targets (Target l ot srcs cfg scr hs' tc dof) add tdeps) =
         mset (input_deps_targets (Target l ot srcs cfg scr hs tc dof) add tdeps)"
proof -
  from assms have "mset hs' = mset hs"
    by (simp add: set_eq_iff_mset_eq_distinct)
  then have "mset (filter P hs') = mset (filter P hs)" for P
    by (simp only: mset_filter)
  with assms(1) show ?thesis
    by (simp add: input_deps_targets_def)
qed

lemma singleton_mset_eq:
  assumes "mset xs = mset ys" and "length ys = 1"
  shows "xs = ys"
proof -
  from assms(2) obtain y where "ys = [y]" by (cases ys) auto
  with assms(1) show ?thesis by simp
qed

lemma input_deps_outs_mset:
  assumes "mset ts' = mset ts" and "inj_on label (set ts)"
  shows "input_deps_outs s srcs ts' = input_deps_outs s srcs ts"
proof -
  from assms(2) have "inj_on (\<lambda>t. label_key (label t)) (set ts)"
    by (auto simp: inj_on_def dest: label_key_inj)
  moreover from assms(1) have "set ts' = set ts" by (rule mset_eq_setD)
  ultimately have "sort_key (\<lambda>t. label_key (label t)) ts' = sort_key (\<lambda>t. label_key (label t)) ts"
    using assms(1) by (intro sort_key_eq_sort_key) simp_all
  then show ?thesis by (simp add: input_deps_outs_def)
qed

text \<open>
  The iteration order of the target's own set of recursive hard deps, which is the order of
  the targets' addresses, does not reach what \<^verbatim>\<open>WriteInputDepsPhonyAndGetDep\<close> writes and
  returns: for two enumerations of the same set of hard deps, a label naming one target, the
  outcomes are equal. This is a property of this one function and of the top-level set only;
  the writers of the rest of a target's rules are not among the sources.
\<close>

theorem WriteInputDepsPhonyAndGetDep_iteration_order:
  assumes same: "set hs' = set hs" and d: "distinct hs" and d': "distinct hs'"
    and inj: "inj_on label (set hs \<union> set add \<union> (case tc of None \<Rightarrow> {} | Some c \<Rightarrow> set (deps c)))"
  shows "WriteInputDepsPhonyAndGetDep s (Target l ot srcs cfg scr hs' tc dof) add n =
         WriteInputDepsPhonyAndGetDep s (Target l ot srcs cfg scr hs tc dof) add n"
proof (cases tc)
  case None
  then show ?thesis by (simp add: WriteInputDepsPhonyAndGetDep_def)
next
  case (Some c)
  let ?t' = "Target l ot srcs cfg scr hs' (Some c) dof" and ?t = "Target l ot srcs cfg scr hs (Some c) dof"
  let ?ts' = "input_deps_targets ?t' add (deps c)" and ?ts = "input_deps_targets ?t add (deps c)"
  have m: "mset ?ts' = mset ?ts"
    by (rule input_deps_targets_mset [OF same d d'])
  then have len: "length ?ts' = length ?ts"
    by (rule mset_eq_length)
  have srcs: "input_deps_sources ?t' = input_deps_sources ?t"
    by (simp add: input_deps_sources_def)
  have one: "length ?ts = 1 \<Longrightarrow> ?ts' = ?ts"
    using m by (rule singleton_mset_eq)
  have "set ?ts \<subseteq> set hs \<union> set add \<union> set (deps c)"
    by (auto simp: input_deps_targets_def)
  with inj Some have "inj_on label (set ?ts)"
    by (auto intro: inj_on_subset)
  with m have outs: "input_deps_outs s (input_deps_sources ?t) ?ts' = input_deps_outs s (input_deps_sources ?t) ?ts"
    by (rule input_deps_outs_mset)
  have phony: "input_phony_file s ?t' = input_phony_file s ?t"
    by (simp add: input_phony_file_def)
  from len have nil: "?ts' = [] \<longleftrightarrow> ?ts = []"
    by (metis length_0_conv)
  show ?thesis
  proof (cases "length ?ts = 1")
    case True
    with one have "?ts' = ?ts" by simp
    then show ?thesis
      unfolding Some by (simp add: WriteInputDepsPhonyAndGetDep_def srcs outs phony Let_def)
  next
    case False
    with len have "length ?ts' \<noteq> 1" by simp
    with False len nil show ?thesis
      unfolding Some by (simp add: WriteInputDepsPhonyAndGetDep_def srcs outs phony Let_def)
  qed
qed

theorem WriteInputDepsPhonyAndGetDep_iteration_order_witness:
  "WriteInputDepsPhonyAndGetDep ex_settings
       (Target (ex_label ''bar'') EXECUTABLE [] [] ''//foo/script.py''
          [ex_dep ''aa'', ex_dep ''zz''] (Some (Toolchain [])) None) [] 2 =
   WriteInputDepsPhonyAndGetDep ex_settings
       (Target (ex_label ''bar'') EXECUTABLE [] [] ''//foo/script.py''
          [ex_dep ''zz'', ex_dep ''aa''] (Some (Toolchain [])) None) [] 2 \<and>
   WriteInputDepsPhonyAndGetDep ex_settings
       (Target (ex_label ''bar'') EXECUTABLE [] [] ''//foo/script.py''
          [ex_dep ''zz'', ex_dep ''aa''] (Some (Toolchain [])) None) [] 2 =
     Inr (''build obj/foo/bar.inputdeps: phony obj/foo/aa.stamp obj/foo/zz.stamp'' @ [CHR 0x0A],
          [''obj/foo/bar.inputdeps''])"
proof -
  have same: "set [ex_dep ''aa'', ex_dep ''zz''] = set [ex_dep ''zz'', ex_dep ''aa'']"
    by auto
  have d: "distinct [ex_dep ''zz'', ex_dep ''aa'']" and d': "distinct [ex_dep ''aa'', ex_dep ''zz'']"
    by (simp_all add: ex_dep_def ex_label_def)
  have inj: "inj_on label (set [ex_dep ''zz'', ex_dep ''aa''] \<union> set [] \<union>
               (case Some (Toolchain []) of None \<Rightarrow> {} | Some c \<Rightarrow> set (deps c)))"
    by (simp add: ex_dep_def ex_label_def)
  have v: "WriteInputDepsPhonyAndGetDep ex_settings
       (Target (ex_label ''bar'') EXECUTABLE [] [] ''//foo/script.py''
          [ex_dep ''zz'', ex_dep ''aa''] (Some (Toolchain [])) None) [] 2 =
     Inr (''build obj/foo/bar.inputdeps: phony obj/foo/aa.stamp obj/foo/zz.stamp'' @ [CHR 0x0A],
          [''obj/foo/bar.inputdeps''])"
    by (simp add: writer_defs ex_writer_defs)
  show ?thesis
    by (intro conjI) (rule WriteInputDepsPhonyAndGetDep_iteration_order [OF same d d' inj], fact v)
qed

section \<open>Properties of the generated\_file generator\<close>

lemmas gen_eval = DoRun_def FillContents_def FillDataKeys_def FillRebase_def FillWalkKeys_def
  FillOutputConversion_def ContentsDefined_def VerifyTypeIs_def ex_generator_def
  ex_FillOutputs_def kWriteValueContents_def kWriteOutputConversion_def kRebase_def
  kDataKeys_def kWalkKeys_def

lemma push_walk_keys_strings:
  "list_all (\<lambda>x. type_of x = STRING) vs \<Longrightarrow>
     push_walk_keys vs g =
       (True, g\<lparr>g_target := (g_target g)\<lparr>walk_keys :=
                 walk_keys (g_target g) @ map string_value vs\<rparr>\<rparr>)"
  by (induction vs arbitrary: g) (simp_all add: VerifyTypeIs_def)

lemma push_walk_keys_type_error:
  "\<not> list_all (\<lambda>x. type_of x = STRING) vs \<Longrightarrow>
     \<not> fst (push_walk_keys vs g) \<and> is_type_error (g_err (snd (push_walk_keys vs g)))"
  by (induction vs arbitrary: g) (auto simp: VerifyTypeIs_def)

text \<open>
  C8, as amended. When the declaration does not set \<^verbatim>\<open>walk_keys\<close>,
  \<^verbatim>\<open>FillWalkKeys\<close> succeeds and appends the empty string to the walk keys of the target,
  which for a target with no walk keys yet gives exactly the one-element list holding the
  empty string. When \<^verbatim>\<open>walk_keys\<close> is set and contents is not defined, either the value
  is a list whose elements are all strings, and they become walk keys of the target, or
  \<^verbatim>\<open>FillWalkKeys\<close> fails with a type error. When \<^verbatim>\<open>walk_keys\<close> is set and contents is
  defined, \<^verbatim>\<open>FillWalkKeys\<close> fails with the error that \<^verbatim>\<open>walk_keys\<close> will not be used,
  whatever the value holds.
\<close>

theorem FillWalkKeys_default_and_validation:
  "(g_scope g kWalkKeys = None \<longrightarrow>
      FillWalkKeys g =
        (True, g\<lparr>g_target := (g_target g)\<lparr>walk_keys := walk_keys (g_target g) @ ['''']\<rparr>\<rparr>) \<and>
      (walk_keys (g_target g) = [] \<longrightarrow> walk_keys (g_target (snd (FillWalkKeys g))) = [''''])) \<and>
   (\<forall>v. g_scope g kWalkKeys = Some v \<and> \<not> contents_defined g \<longrightarrow>
      (if type_of v = LIST \<and> list_all (\<lambda>x. type_of x = STRING) (list_value v)
       then FillWalkKeys g =
              (True, g\<lparr>g_target := (g_target g)\<lparr>walk_keys :=
                 walk_keys (g_target g) @ map string_value (list_value v)\<rparr>\<rparr>)
       else \<not> fst (FillWalkKeys g) \<and> is_type_error (g_err (snd (FillWalkKeys g))))) \<and>
   (\<forall>v. g_scope g kWalkKeys = Some v \<and> contents_defined g \<longrightarrow>
      FillWalkKeys g =
        (False, g\<lparr>g_err := Some (Err ''walk_keys won't be used.''
           ([CHR 0x22] @ ''contents'' @ [CHR 0x22] @
            '' is defined on this target, and so setting walk_keys will have no effect as no metdata collection will occur.''))\<rparr>))"
proof (intro conjI allI impI)
  assume "g_scope g kWalkKeys = None"
  then show "FillWalkKeys g =
        (True, g\<lparr>g_target := (g_target g)\<lparr>walk_keys := walk_keys (g_target g) @ ['''']\<rparr>\<rparr>)"
    by (simp add: FillWalkKeys_def)
next
  assume "g_scope g kWalkKeys = None" "walk_keys (g_target g) = []"
  then show "walk_keys (g_target (snd (FillWalkKeys g))) = ['''']"
    by (simp add: FillWalkKeys_def)
next
  fix v
  assume a: "g_scope g kWalkKeys = Some v \<and> \<not> contents_defined g"
  show "if type_of v = LIST \<and> list_all (\<lambda>x. type_of x = STRING) (list_value v)
       then FillWalkKeys g =
              (True, g\<lparr>g_target := (g_target g)\<lparr>walk_keys :=
                 walk_keys (g_target g) @ map string_value (list_value v)\<rparr>\<rparr>)
       else \<not> fst (FillWalkKeys g) \<and> is_type_error (g_err (snd (FillWalkKeys g)))"
  proof (cases "type_of v = LIST")
    case False
    with a show ?thesis
      by (simp add: FillWalkKeys_def ContentsDefined_def VerifyTypeIs_def)
  next
    case True
    with a have f: "FillWalkKeys g = push_walk_keys (list_value v) g"
      by (simp add: FillWalkKeys_def ContentsDefined_def VerifyTypeIs_def)
    show ?thesis
    proof (cases "list_all (\<lambda>x. type_of x = STRING) (list_value v)")
      case True
      with \<open>type_of v = LIST\<close> f show ?thesis by (simp add: push_walk_keys_strings)
    next
      case False
      with f push_walk_keys_type_error [OF False, of g] show ?thesis by simp
    qed
  qed
next
  fix v
  assume "g_scope g kWalkKeys = Some v \<and> contents_defined g"
  then show "FillWalkKeys g =
        (False, g\<lparr>g_err := Some (Err ''walk_keys won't be used.''
           ([CHR 0x22] @ ''contents'' @ [CHR 0x22] @
            '' is defined on this target, and so setting walk_keys will have no effect as no metdata collection will occur.''))\<rparr>)"
    by (simp add: FillWalkKeys_def ContentsDefined_def kWalkKeys_def)
qed

theorem FillWalkKeys_default_and_validation_witness:
  "walk_keys (g_target (snd (FillWalkKeys (ex_generator [(''data_keys'', VList [VString ''a''])])))) =
     [''''] \<and>
   walk_keys (g_target (snd (FillWalkKeys
      (ex_generator [(''walk_keys'', VList [VString ''barrier'', VString ''other''])])))) =
     [''barrier'', ''other''] \<and>
   is_type_error (g_err (snd (FillWalkKeys
      (ex_generator [(''walk_keys'', VList [VString ''barrier'', VInt 1])])))) \<and>
   walk_keys (g_target (DoRun ex_FillOutputs (ex_generator [(''data_keys'', VList [VString ''a''])]))) =
     [''''] \<and>
   g_err (DoRun ex_FillOutputs (ex_generator [(''data_keys'', VList [VString ''a''])])) = None"
proof -
  let ?g1 = "ex_generator [(''data_keys'', VList [VString ''a''])]"
  let ?g2 = "ex_generator [(''walk_keys'', VList [VString ''barrier'', VString ''other''])]"
  let ?g3 = "ex_generator [(''walk_keys'', VList [VString ''barrier'', VInt 1])]"
  have s1: "g_scope ?g1 kWalkKeys = None" and w1: "walk_keys (g_target ?g1) = []"
    by (simp_all add: ex_generator_def kWalkKeys_def)
  have s2: "g_scope ?g2 kWalkKeys = Some (VList [VString ''barrier'', VString ''other''])"
    and c2: "\<not> contents_defined ?g2" and w2: "walk_keys (g_target ?g2) = []"
    by (simp_all add: ex_generator_def kWalkKeys_def)
  have s3: "g_scope ?g3 kWalkKeys = Some (VList [VString ''barrier'', VInt 1])"
    and c3: "\<not> contents_defined ?g3"
    by (simp_all add: ex_generator_def kWalkKeys_def)
  from FillWalkKeys_default_and_validation [of ?g1] s1 w1
  have a: "walk_keys (g_target (snd (FillWalkKeys ?g1))) = ['''']"
    by simp
  from FillWalkKeys_default_and_validation [of ?g2] s2 c2 w2
  have b: "walk_keys (g_target (snd (FillWalkKeys ?g2))) = [''barrier'', ''other'']"
    by simp
  from FillWalkKeys_default_and_validation [of ?g3] s3 c3
  have c: "is_type_error (g_err (snd (FillWalkKeys ?g3)))"
    by simp
  have d: "walk_keys (g_target (DoRun ex_FillOutputs ?g1)) = ['''']"
    and e: "g_err (DoRun ex_FillOutputs ?g1) = None"
    by (simp_all add: gen_eval)
  show ?thesis by (intro conjI) (fact a, fact b, fact c, fact d, fact e)
qed

theorem FillWalkKeys_type_error_counterexample:
  "g_err (DoRun ex_FillOutputs
      (ex_generator [(''contents'', VString ''x''), (''walk_keys'', VList [VInt 1])])) =
     Some (Err ''walk_keys won't be used.''
       ([CHR 0x22] @ ''contents'' @ [CHR 0x22] @
        '' is defined on this target, and so setting walk_keys will have no effect as no metdata collection will occur.'')) \<and>
   \<not> is_type_error (g_err (DoRun ex_FillOutputs
      (ex_generator [(''contents'', VString ''x''), (''walk_keys'', VList [VInt 1])]))) \<and>
   \<not> is_type_error (g_err (snd (FillWalkKeys
      ((ex_generator [(''contents'', VString ''x''), (''walk_keys'', VList [VInt 1])])
         \<lparr>contents_defined := True\<rparr>)))) \<and>
   \<not> fst (FillWalkKeys
      ((ex_generator [(''contents'', VString ''x''), (''walk_keys'', VList [VInt 1])])
         \<lparr>contents_defined := True\<rparr>)) \<and>
   \<not> list_all (\<lambda>x. type_of x = STRING) [VInt 1]"
  by (simp add: gen_eval)

section \<open>Properties of the metadata walk\<close>

lemmas walk_eval = WalkMetadata_def ex_args_def ex_metadata_def walk_def next_walk_keys_def
  walk_entries_def key_entries_def extract_values_def resolve_def VerifyTypeIs_def all_deps_def
  entry_targets_def barrier_error_def

lemmas ex_meta_defs = ex_one_def ex_two_def ex_three_def ex_missing_def ex_open_def
  ex_mistyped_def

text \<open>The walk as defined gives what the tests \<^verbatim>\<open>CollectNoRecurse\<close> and
  \<^verbatim>\<open>CollectWithRecurse\<close> expect.\<close>

lemma WalkMetadata_CollectNoRecurse:
  "WalkMetadata (ex_args [''a'', ''b''] [])
     [MetaTarget ''//foo:one''
        (ex_metadata [(''a'', [VString ''foo'']), (''b'', [VBool True])]) [] [] [],
      MetaTarget ''//foo:two''
        (ex_metadata [(''a'', [VString ''bar'']), (''b'', [VBool False])]) [] [] []] =
   ([VString ''foo'', VBool True, VString ''bar'', VBool False],
    [MetaTarget ''//foo:one''
        (ex_metadata [(''a'', [VString ''foo'']), (''b'', [VBool True])]) [] [] [],
     MetaTarget ''//foo:two''
        (ex_metadata [(''a'', [VString ''bar'']), (''b'', [VBool False])]) [] [] []],
    None)"
  by (simp add: walk_eval)

lemma WalkMetadata_CollectWithRecurse:
  "WalkMetadata (ex_args [''a'', ''b''] [])
     [MetaTarget ''//foo:one''
        (ex_metadata [(''a'', [VString ''foo'']), (''b'', [VBool True])]) [ex_two] [] []] =
   ([VString ''foo'', VBool True, VString ''bar''],
    [MetaTarget ''//foo:one''
        (ex_metadata [(''a'', [VString ''foo'']), (''b'', [VBool True])]) [ex_two] [] [],
     ex_two],
    None)"
  by (simp add: walk_eval ex_two_def)

subsection \<open>A successful walk\<close>

lemma exs_append: "exs a (M @ N) = exs a M @ exs a N"
  by (simp add: exs_def)

lemma walk_inv_refl: "walk_inv a {} st [] st"
  by (simp add: walk_inv_def exs_def)

lemma walk_inv_prefix: "walk_inv a r st p st' \<Longrightarrow> set (fst st) \<subseteq> set (fst st')"
  unfolding walk_inv_def by auto

lemma walk_inv_trans:
  assumes "walk_inv a r1 st p st1" and "walk_inv a r2 st1 [] st2"
  shows "walk_inv a (r1 \<union> r2) st p st2"
proof -
  from assms(1) obtain N1 where 1: "fst st1 = fst st @ N1" "snd st1 = snd st @ p @ exs a N1"
      "\<forall>n\<in>set N1. n \<in> r1 \<or> (\<exists>u\<in>set N1. n \<in> set (named_by a u))"
      "r1 \<subseteq> set (fst st1)" "\<forall>u\<in>set N1. set (named_by a u) \<subseteq> set (fst st1)"
      "\<forall>u\<in>set N1. entries_ok a u" "distinct (fst st) \<longrightarrow> distinct (fst st1)"
    unfolding walk_inv_def by blast
  from assms(2) obtain N2 where 2: "fst st2 = fst st1 @ N2" "snd st2 = snd st1 @ exs a N2"
      "\<forall>n\<in>set N2. n \<in> r2 \<or> (\<exists>u\<in>set N2. n \<in> set (named_by a u))"
      "r2 \<subseteq> set (fst st2)" "\<forall>u\<in>set N2. set (named_by a u) \<subseteq> set (fst st2)"
      "\<forall>u\<in>set N2. entries_ok a u" "distinct (fst st1) \<longrightarrow> distinct (fst st2)"
    unfolding walk_inv_def append_Nil by blast
  have sub: "set (fst st1) \<subseteq> set (fst st2)" using 2(1) by auto
  show ?thesis
    unfolding walk_inv_def
  proof (intro exI [where x = "N1 @ N2"] conjI)
    show "fst st2 = fst st @ N1 @ N2" using 1(1) 2(1) by simp
    show "snd st2 = snd st @ p @ exs a (N1 @ N2)" using 1(2) 2(2) by (simp add: exs_append)
    show "\<forall>n\<in>set (N1 @ N2). n \<in> r1 \<union> r2 \<or> (\<exists>u\<in>set (N1 @ N2). n \<in> set (named_by a u))"
      using 1(3) 2(3) by auto
    show "r1 \<union> r2 \<subseteq> set (fst st2)" using 1(4) 2(4) sub by auto
    show "\<forall>u\<in>set (N1 @ N2). set (named_by a u) \<subseteq> set (fst st2)"
      using 1(5) 2(5) sub by auto
    show "\<forall>u\<in>set (N1 @ N2). entries_ok a u" using 1(6) 2(6) by auto
    show "distinct (fst st) \<longrightarrow> distinct (fst st2)" using 1(7) 2(7) by simp
  qed
qed

lemma walk_inv_skip:
  assumes "walk_inv a r st [] st'" and "d \<in> set (fst st)"
  shows "walk_inv a (insert d r) st [] st'"
  using assms unfolding walk_inv_def by auto

lemma walk_inv_visit:
  assumes "walk_inv a (set (named_by a d)) (W @ [d], R) (extract_values a (metadata d)) st'"
    and "d \<notin> set W" and "entries_ok a d"
  shows "walk_inv a {d} (W, R) [] st'"
proof -
  from assms(1) obtain N where N: "fst st' = (W @ [d]) @ N"
      "snd st' = R @ extract_values a (metadata d) @ exs a N"
      "\<forall>n\<in>set N. n \<in> set (named_by a d) \<or> (\<exists>u\<in>set N. n \<in> set (named_by a u))"
      "set (named_by a d) \<subseteq> set (fst st')" "\<forall>u\<in>set N. set (named_by a u) \<subseteq> set (fst st')"
      "\<forall>u\<in>set N. entries_ok a u" "distinct (W @ [d]) \<longrightarrow> distinct (fst st')"
    unfolding walk_inv_def fst_conv snd_conv by blast
  show ?thesis
    unfolding walk_inv_def
  proof (intro exI [where x = "d # N"] conjI)
    show "fst st' = fst (W, R) @ d # N" using N(1) by simp
    show "snd st' = snd (W, R) @ [] @ exs a (d # N)" using N(2) by (simp add: exs_def)
    show "\<forall>n\<in>set (d # N). n \<in> {d} \<or> (\<exists>u\<in>set (d # N). n \<in> set (named_by a u))"
      using N(3) by auto
    show "{d} \<subseteq> set (fst st')" using N(1) by simp
    show "\<forall>u\<in>set (d # N). set (named_by a u) \<subseteq> set (fst st')" using N(4,5) by auto
    show "\<forall>u\<in>set (d # N). entries_ok a u" using N(6) assms(3) by auto
    show "distinct (fst (W, R)) \<longrightarrow> distinct (fst st')" using N(7) assms(2) by simp
  qed
qed

lemma walk_success:
  shows "walk_target a t st = Inr st' \<Longrightarrow>
           walk_inv a (set (named_by a t)) st (extract_values a (metadata t)) st' \<and> entries_ok a t"
    and "walk_next a t es st = Inr st' \<Longrightarrow>
           walk_inv a (\<Union>e\<in>set es. entry_set t e) st [] st' \<and>
           list_all (\<lambda>e. case entry_targets t e of Inl _ \<Rightarrow> False | Inr _ \<Rightarrow> True) es"
    and "walk_deps a ds st = Inr st' \<Longrightarrow> walk_inv a (set ds) st [] st'"
proof (induction a t st and a t es st and a ds st arbitrary: st' and st' and st'
       rule: walk_target_walk_next_walk_deps.induct)
  case (1 a t walked result)
  from "1.prems" obtain nk where nk: "next_walk_keys a (metadata t) = Inr nk"
    and w: "walk_next a t nk (walked, result @ extract_values a (metadata t)) = Inr st'"
    by (auto simp: walk_def split: sum.splits)
  have wk: "walk a (metadata t) = Inr (nk, extract_values a (metadata t))"
    by (simp add: walk_def nk)
  from "1.IH" [OF wk refl w]
  have inv: "walk_inv a (\<Union>e\<in>set nk. entry_set t e) (walked, result @ extract_values a (metadata t)) [] st'"
    and ok: "list_all (\<lambda>e. case entry_targets t e of Inl _ \<Rightarrow> False | Inr _ \<Rightarrow> True) nk"
    by simp_all
  have "\<And>e. set (case entry_targets t e of Inl _ \<Rightarrow> [] | Inr ds \<Rightarrow> ds) = entry_set t e"
    by (simp add: entry_set_def split: sum.splits)
  then have nb: "set (named_by a t) = (\<Union>e\<in>set nk. entry_set t e)"
    by (simp add: named_by_def nk)
  from inv have "walk_inv a (set (named_by a t)) (walked, result) (extract_values a (metadata t)) st'"
    unfolding nb walk_inv_def by simp
  moreover have "entries_ok a t" using ok by (simp add: entries_ok_def nk)
  ultimately show ?case by simp
next
  case (2 a t st)
  then show ?case by (simp add: walk_inv_refl)
next
  case (3 a t e es walked result)
  from "3.prems" obtain ds st1 where ds: "entry_targets t e = Inr ds"
    and d1: "walk_deps a ds (walked, result) = Inr st1"
    and d2: "walk_next a t es st1 = Inr st'"
    by (auto split: sum.splits)
  from "3.IH"(1) [OF ds d1] have i1: "walk_inv a (set ds) (walked, result) [] st1" .
  from "3.IH"(2) [OF ds d1 d2] have i2: "walk_inv a (\<Union>e\<in>set es. entry_set t e) st1 [] st'"
    and ok: "list_all (\<lambda>e. case entry_targets t e of Inl _ \<Rightarrow> False | Inr _ \<Rightarrow> True) es"
    by simp_all
  have "(\<Union>e\<in>set (e # es). entry_set t e) = set ds \<union> (\<Union>e\<in>set es. entry_set t e)"
    by (simp add: entry_set_def ds)
  with walk_inv_trans [OF i1 i2] ok ds show ?case by simp
next
  case (4 a st)
  then show ?case by (simp add: walk_inv_refl)
next
  case (5 a d ds walked result)
  show ?case
  proof (cases "d \<in> set walked")
    case True
    with "5.prems" have "walk_deps a ds (walked, result) = Inr st'" by simp
    from "5.IH"(1) [OF True this] have "walk_inv a (set ds) (walked, result) [] st'" .
    from walk_inv_skip [OF this, of d] True show ?thesis by simp
  next
    case False
    with "5.prems" obtain st1 where d1: "walk_target a d (walked @ [d], result) = Inr st1"
      and d2: "walk_deps a ds st1 = Inr st'"
      by (auto split: sum.splits)
    from "5.IH"(2) [OF False d1]
    have i1: "walk_inv a (set (named_by a d)) (walked @ [d], result) (extract_values a (metadata d)) st1"
      and ok: "entries_ok a d" by simp_all
    from "5.IH"(3) [OF False d1 d2] have i2: "walk_inv a (set ds) st1 [] st'" .
    from walk_inv_trans [OF walk_inv_visit [OF i1 False ok] i2] show ?thesis by simp
  qed
qed

subsection \<open>The targets a walk reaches, whether it succeeds or fails\<close>

lemma walk_inv_prov: "walk_inv a r st p st' \<Longrightarrow> walk_prov a r (fst st) (fst st')"
  unfolding walk_inv_def walk_prov_def by blast

lemma walk_prov_refl: "walk_prov a r W W"
  by (simp add: walk_prov_def)

lemma walk_prov_mono: "walk_prov a r W W' \<Longrightarrow> r \<subseteq> r' \<Longrightarrow> walk_prov a r' W W'"
  unfolding walk_prov_def by blast

lemma walk_prov_trans:
  assumes "walk_prov a r1 W W1" and "walk_prov a r2 W1 W2"
  shows "walk_prov a (r1 \<union> r2) W W2"
proof -
  from assms(1) obtain N1 where 1: "W1 = W @ N1"
      "\<forall>n\<in>set N1. n \<in> r1 \<or> (\<exists>u\<in>set N1. n \<in> set (named_by a u))"
      "distinct W \<longrightarrow> distinct W1"
    unfolding walk_prov_def by blast
  from assms(2) obtain N2 where 2: "W2 = W1 @ N2"
      "\<forall>n\<in>set N2. n \<in> r2 \<or> (\<exists>u\<in>set N2. n \<in> set (named_by a u))"
      "distinct W1 \<longrightarrow> distinct W2"
    unfolding walk_prov_def by blast
  show ?thesis
    unfolding walk_prov_def
  proof (intro exI [where x = "N1 @ N2"] conjI)
    show "W2 = W @ N1 @ N2" using 1(1) 2(1) by simp
    show "\<forall>n\<in>set (N1 @ N2). n \<in> r1 \<union> r2 \<or> (\<exists>u\<in>set (N1 @ N2). n \<in> set (named_by a u))"
      using 1(2) 2(2) by auto
    show "distinct W \<longrightarrow> distinct W2" using 1(3) 2(3) by simp
  qed
qed

lemma walk_prov_visit:
  assumes "walk_prov a (set (named_by a d)) (W @ [d]) W'" and "d \<notin> set W"
  shows "walk_prov a {d} W W'"
proof -
  from assms(1) obtain N where N: "W' = (W @ [d]) @ N"
      "\<forall>n\<in>set N. n \<in> set (named_by a d) \<or> (\<exists>u\<in>set N. n \<in> set (named_by a u))"
      "distinct (W @ [d]) \<longrightarrow> distinct W'"
    unfolding walk_prov_def by blast
  show ?thesis
    unfolding walk_prov_def
  proof (intro exI [where x = "d # N"] conjI)
    show "W' = W @ d # N" using N(1) by simp
    show "\<forall>n\<in>set (d # N). n \<in> {d} \<or> (\<exists>u\<in>set (d # N). n \<in> set (named_by a u))"
      using N(2) by auto
    show "distinct W \<longrightarrow> distinct W'" using N(3) assms(2) by simp
  qed
qed

lemma walk_failure_prov:
  shows "walk_target a t st = Inl (x, W') \<Longrightarrow> walk_prov a (set (named_by a t)) (fst st) W'"
    and "walk_next a t es st = Inl (x, W') \<Longrightarrow>
           walk_prov a (\<Union>e\<in>set es. entry_set t e) (fst st) W'"
    and "walk_deps a ds st = Inl (x, W') \<Longrightarrow> walk_prov a (set ds) (fst st) W'"
proof (induction a t st and a t es st and a ds st arbitrary: x W' and x W' and x W'
       rule: walk_target_walk_next_walk_deps.induct)
  case (1 a t walked result)
  show ?case
  proof (cases "next_walk_keys a (metadata t)")
    case (Inl e)
    with "1.prems" have "W' = walked" by (simp add: walk_def)
    then show ?thesis by (simp add: walk_prov_refl)
  next
    case (Inr nk)
    then have wk: "walk a (metadata t) = Inr (nk, extract_values a (metadata t))"
      by (simp add: walk_def)
    with "1.prems" have w: "walk_next a t nk (walked, result @ extract_values a (metadata t)) = Inl (x, W')"
      by simp
    from "1.IH" [OF wk refl w] have p: "walk_prov a (\<Union>e\<in>set nk. entry_set t e) walked W'"
      by simp
    have "\<And>e. set (case entry_targets t e of Inl _ \<Rightarrow> [] | Inr ds \<Rightarrow> ds) = entry_set t e"
      by (simp add: entry_set_def split: sum.splits)
    then have "set (named_by a t) = (\<Union>e\<in>set nk. entry_set t e)"
      by (simp add: named_by_def Inr)
    with p show ?thesis by simp
  qed
next
  case (2 a t st)
  then show ?case by simp
next
  case (3 a t e es walked result)
  show ?case
  proof (cases "entry_targets t e")
    case (Inl err)
    with "3.prems" have "W' = walked" by simp
    then show ?thesis by (simp add: walk_prov_refl)
  next
    case (Inr ds)
    then have u: "(\<Union>e\<in>set (e # es). entry_set t e) = set ds \<union> (\<Union>e\<in>set es. entry_set t e)"
      by (simp add: entry_set_def)
    show ?thesis
    proof (cases "walk_deps a ds (walked, result)")
      case (Inl y)
      with Inr "3.prems" have "walk_deps a ds (walked, result) = Inl (x, W')" by simp
      from "3.IH"(1) [OF Inr this] have "walk_prov a (set ds) walked W'" by simp
      from walk_prov_mono [OF this, of "\<Union>e\<in>set (e # es). entry_set t e"] u
      show ?thesis by simp
    next
      case st1: (Inr st1)
      with Inr "3.prems" have w: "walk_next a t es st1 = Inl (x, W')" by simp
      from walk_inv_prov [OF walk_success(3) [OF st1]]
      have p1: "walk_prov a (set ds) walked (fst st1)" by simp
      from "3.IH"(2) [OF Inr st1 w]
      have p2: "walk_prov a (\<Union>e\<in>set es. entry_set t e) (fst st1) W'" .
      from walk_prov_trans [OF p1 p2] u show ?thesis by simp
    qed
  qed
next
  case (4 a st)
  then show ?case by simp
next
  case (5 a d ds walked result)
  show ?case
  proof (cases "d \<in> set walked")
    case True
    with "5.prems" have "walk_deps a ds (walked, result) = Inl (x, W')" by simp
    from "5.IH"(1) [OF True this] have "walk_prov a (set ds) walked W'" by simp
    from walk_prov_mono [OF this, of "set (d # ds)"] show ?thesis by auto
  next
    case False
    show ?thesis
    proof (cases "walk_target a d (walked @ [d], result)")
      case (Inl y)
      with False "5.prems" have "walk_target a d (walked @ [d], result) = Inl (x, W')" by simp
      from "5.IH"(2) [OF False this]
      have "walk_prov a (set (named_by a d)) (walked @ [d]) W'" by simp
      from walk_prov_mono [OF walk_prov_visit [OF this False], of "set (d # ds)"]
      show ?thesis by simp
    next
      case st1: (Inr st1)
      with False "5.prems" have w: "walk_deps a ds st1 = Inl (x, W')" by simp
      from walk_success(1) [OF st1]
      have i1: "walk_inv a (set (named_by a d)) (walked @ [d], result) (extract_values a (metadata d)) st1"
        and ok: "entries_ok a d" by simp_all
      from walk_inv_prov [OF walk_inv_visit [OF i1 False ok]]
      have p1: "walk_prov a {d} walked (fst st1)" by simp
      from "5.IH"(3) [OF False st1 w] have p2: "walk_prov a (set ds) (fst st1) W'" .
      from walk_prov_trans [OF p1 p2] show ?thesis by simp
    qed
  qed
qed

subsection \<open>A failed walk\<close>

lemma label_strings_Inr: "label_strings vs = Inr ls \<Longrightarrow> vs = map VString ls"
proof (induction vs arbitrary: ls)
  case Nil
  then show ?case by simp
next
  case (Cons v vs)
  then show ?case
    by (cases v) (auto simp: VerifyTypeIs_def split: sum.splits if_splits)
qed

lemma label_strings_Inl:
  "label_strings vs = Inl x \<Longrightarrow> is_type_error (Some x) \<and> (\<exists>v\<in>set vs. type_of v \<noteq> STRING)"
proof (induction vs)
  case Nil
  then show ?case by simp
next
  case (Cons v vs)
  then show ?case
    by (auto simp: VerifyTypeIs_def split: sum.splits if_splits)
qed

lemma walk_failure:
  shows "walk_target a t st = Inl (x, W') \<Longrightarrow> t \<in> set (fst st) \<Longrightarrow>
           failure_at a x W' \<or> type_failure_at a x W'"
    and "walk_next a t es st = Inl (x, W') \<Longrightarrow> t \<in> set (fst st) \<Longrightarrow>
           (\<exists>nk. next_walk_keys a (metadata t) = Inr nk \<and> set es \<subseteq> set nk) \<Longrightarrow>
           failure_at a x W' \<or> type_failure_at a x W'"
    and "walk_deps a ds st = Inl (x, W') \<Longrightarrow> failure_at a x W' \<or> type_failure_at a x W'"
proof (induction a t st and a t es st and a ds st arbitrary: x W' and x W' and x W'
       rule: walk_target_walk_next_walk_deps.induct)
  case (1 a t walked result)
  show ?case
  proof (cases "next_walk_keys a (metadata t)")
    case (Inl e)
    with "1.prems"(1) have "x = e" "W' = walked" by (simp_all add: walk_def)
    with Inl "1.prems"(2) have "type_failure_at a x W'"
      unfolding type_failure_at_def by auto
    then show ?thesis ..
  next
    case (Inr nk)
    then have wk: "walk a (metadata t) = Inr (nk, extract_values a (metadata t))"
      by (simp add: walk_def)
    with "1.prems"(1) have w: "walk_next a t nk (walked, result @ extract_values a (metadata t)) = Inl (x, W')"
      by simp
    from "1.IH" [OF wk refl w] "1.prems"(2) Inr show ?thesis by auto
  qed
next
  case (2 a t st)
  then show ?case by simp
next
  case (3 a t e es walked result)
  from "3.prems"(3) obtain nk where nk: "next_walk_keys a (metadata t) = Inr nk"
    and e: "e \<in> set nk" and es: "set es \<subseteq> set nk"
    by auto
  show ?case
  proof (cases "entry_targets t e")
    case (Inl err)
    with "3.prems"(1) have "x = err" "W' = walked" by simp_all
    with Inl nk e "3.prems"(2) have "failure_at a x W'"
      unfolding failure_at_def by auto
    then show ?thesis ..
  next
    case (Inr ds)
    show ?thesis
    proof (cases "walk_deps a ds (walked, result)")
      case (Inl y)
      with Inr "3.prems"(1) have "walk_deps a ds (walked, result) = Inl (x, W')" by simp
      from "3.IH"(1) [OF Inr this] show ?thesis .
    next
      case st1: (Inr st1)
      with Inr "3.prems"(1) have w: "walk_next a t es st1 = Inl (x, W')" by simp
      from walk_inv_prefix [OF walk_success(3) [OF st1]] have sub: "set walked \<subseteq> set (fst st1)"
        by simp
      with "3.prems"(2) have "t \<in> set (fst st1)" by auto
      from "3.IH"(2) [OF Inr st1 w this] nk es show ?thesis by auto
    qed
  qed
next
  case (4 a st)
  then show ?case by simp
next
  case (5 a d ds walked result)
  show ?case
  proof (cases "d \<in> set walked")
    case True
    with "5.prems"(1) have "walk_deps a ds (walked, result) = Inl (x, W')" by simp
    from "5.IH"(1) [OF True this] show ?thesis .
  next
    case False
    show ?thesis
    proof (cases "walk_target a d (walked @ [d], result)")
      case (Inl y)
      with False "5.prems"(1) have "walk_target a d (walked @ [d], result) = Inl (x, W')" by simp
      from "5.IH"(2) [OF False this] show ?thesis by simp
    next
      case st1: (Inr st1)
      with False "5.prems"(1) have w: "walk_deps a ds st1 = Inl (x, W')" by simp
      from "5.IH"(3) [OF False st1 w] show ?thesis .
    qed
  qed
qed

subsection \<open>Entries and walk-key values\<close>

lemma walk_entries_barrier:
  "keys_to_walk a \<noteq> [] \<Longrightarrow> [] \<notin> set (keys_to_walk a) \<Longrightarrow>
     walk_entries a m = walk_key_values a m"
proof -
  assume ne: "keys_to_walk a \<noteq> []" and nb: "[] \<notin> set (keys_to_walk a)"
  have "map (key_entries m) ws = map (\<lambda>w. case contents m w of None \<Rightarrow> [] | Some vs \<Rightarrow> vs) ws"
    if "[] \<notin> set ws" for ws
    using that by (induction ws) (auto simp: key_entries_def)
  from this [OF nb]
  have "concat (map (key_entries m) (keys_to_walk a)) =
        concat (map (\<lambda>w. case contents m w of None \<Rightarrow> [] | Some vs \<Rightarrow> vs) (keys_to_walk a))"
    by (rule arg_cong)
  with ne show ?thesis
    by (simp only: walk_entries_def walk_key_values_def if_False)
qed

lemma walk_key_values_entries:
  "VString e \<in> set (walk_key_values a m) \<Longrightarrow> VString e \<in> set (walk_entries a m)"
  by (auto simp: walk_key_values_def walk_entries_def key_entries_def)

lemma walk_entries_values:
  "VString e \<in> set (walk_entries a m) \<Longrightarrow> e \<noteq> [] \<Longrightarrow> VString e \<in> set (walk_key_values a m)"
  by (auto simp: walk_key_values_def walk_entries_def key_entries_def split: if_splits)

lemma walk_entries_not_string:
  "v \<in> set (walk_entries a m) \<Longrightarrow> type_of v \<noteq> STRING \<Longrightarrow> v \<in> set (walk_key_values a m)"
  by (auto simp: walk_key_values_def walk_entries_def key_entries_def split: if_splits)

lemma next_walk_keys_entries:
  "next_walk_keys a m = Inr nk \<Longrightarrow> (e \<in> set nk) = (VString e \<in> set (walk_entries a m))"
  by (auto simp: next_walk_keys_def dest!: label_strings_Inr)

lemma entry_targets_Inl:
  "entry_targets t e = Inl x \<longleftrightarrow> e \<noteq> [] \<and> resolve e t = None \<and> x = barrier_error e t"
  by (auto simp: entry_targets_def split: option.splits)

lemma entries_ok_next: "entries_ok a u \<Longrightarrow> \<exists>nk. next_walk_keys a (metadata u) = Inr nk"
  by (auto simp: entries_ok_def split: sum.splits)

lemma named_by_iff:
  assumes nk: "next_walk_keys a (metadata u) = Inr nk"
  shows "t \<in> set (named_by a u) \<longleftrightarrow>
         (\<exists>e. VString e \<in> set (walk_entries a (metadata u)) \<and>
              (if e = [] then t \<in> set (all_deps u) else resolve e u = Some t))"
proof -
  have one: "t \<in> set (case entry_targets u e of Inl _ \<Rightarrow> [] | Inr ds \<Rightarrow> ds) \<longleftrightarrow>
        (if e = [] then t \<in> set (all_deps u) else resolve e u = Some t)" for e
    by (cases "resolve e u") (auto simp: entry_targets_def)
  have "t \<in> set (named_by a u) \<longleftrightarrow>
        (\<exists>e\<in>set nk. t \<in> set (case entry_targets u e of Inl _ \<Rightarrow> [] | Inr ds \<Rightarrow> ds))"
    by (simp add: named_by_def nk)
  also have "\<dots> \<longleftrightarrow> (\<exists>e. e \<in> set nk \<and>
        (if e = [] then t \<in> set (all_deps u) else resolve e u = Some t))"
    unfolding one Bex_def ..
  finally show ?thesis
    unfolding next_walk_keys_entries [OF nk] .
qed

lemma named_by_entry:
  assumes "t \<in> set (named_by a u)"
  shows "\<exists>e. VString e \<in> set (walk_entries a (metadata u)) \<and>
              (if e = [] then t \<in> set (all_deps u) else resolve e u = Some t)"
proof (cases "next_walk_keys a (metadata u)")
  case (Inl x)
  with assms show ?thesis by (simp add: named_by_def)
next
  case (Inr nk)
  from assms show ?thesis unfolding named_by_iff [OF Inr] .
qed

lemma entries_ok_resolve:
  assumes "entries_ok a u" and "VString e \<in> set (walk_entries a (metadata u))" and "e \<noteq> []"
  shows "\<exists>t. resolve e u = Some t"
proof -
  from assms(1) obtain nk where nk: "next_walk_keys a (metadata u) = Inr nk"
    and ok: "list_all (\<lambda>e. case entry_targets u e of Inl _ \<Rightarrow> False | Inr _ \<Rightarrow> True) nk"
    by (auto simp: entries_ok_def split: sum.splits)
  from assms(2) nk have "e \<in> set nk" by (simp add: next_walk_keys_entries)
  with ok have "case entry_targets u e of Inl _ \<Rightarrow> False | Inr _ \<Rightarrow> True"
    by (simp add: list_all_iff)
  with assms(3) show ?thesis
    by (auto simp: entry_targets_def split: option.splits)
qed

text \<open>
  C4, as amended. For a walk whose list of walk keys is not empty and does not hold the
  empty string, whether it succeeds or fails: no target is visited twice, and every visited
  target is a seed or is named by a walk-key value of a visited target, where a value that
  is a label names the dependency of that target it resolves to, and a value that is the
  empty string names every dep of that target. When the walk succeeds, the seeds and all the
  targets so named are visited, and the result is the concatenation of the values of the
  visited targets in first-visit order; when it fails, the result is empty. So a dependency
  that no walk-key value names, by its label or by the empty string, is not visited and
  contributes no value. The scenario of \<^verbatim>\<open>CollectWithBarrier\<close> is the instance that
  follows.
\<close>

theorem WalkMetadata_barrier:
  assumes run: "WalkMetadata a seeds = (result, walked, err)"
    and ne: "keys_to_walk a \<noteq> []" and nb: "[] \<notin> set (keys_to_walk a)"
  shows "distinct walked \<and>
     (\<forall>t\<in>set walked. t \<in> set seeds \<or>
        (\<exists>u\<in>set walked. \<exists>e. VString e \<in> set (walk_key_values a (metadata u)) \<and>
           (if e = [] then t \<in> set (all_deps u) else resolve e u = Some t))) \<and>
     (err = None \<longrightarrow>
        set seeds \<subseteq> set walked \<and>
        (\<forall>u\<in>set walked. \<forall>e. VString e \<in> set (walk_key_values a (metadata u)) \<longrightarrow>
           (if e = [] then set (all_deps u) \<subseteq> set walked
            else \<exists>t\<in>set walked. resolve e u = Some t)) \<and>
        result = concat (map (\<lambda>t. extract_values a (metadata t)) walked)) \<and>
     (err \<noteq> None \<longrightarrow> result = [])"
proof -
  have eq: "walk_entries a m = walk_key_values a m" for m
    by (rule walk_entries_barrier [OF ne nb])
  have p: "walk_prov a (set seeds) [] walked"
  proof (cases "walk_deps a seeds ([], [])")
    case (Inl f)
    obtain x W where f: "f = (x, W)" by (cases f)
    with Inl run have "walked = W" by (simp add: WalkMetadata_def)
    with walk_failure_prov(3) [OF Inl [unfolded f]] show ?thesis by simp
  next
    case (Inr st)
    obtain W R where st: "st = (W, R)" by (cases st)
    with Inr run have "walked = W" by (simp add: WalkMetadata_def)
    with walk_inv_prov [OF walk_success(3) [OF Inr]] st show ?thesis by simp
  qed
  then have dist: "distinct walked"
    and named: "\<forall>n\<in>set walked. n \<in> set seeds \<or> (\<exists>u\<in>set walked. n \<in> set (named_by a u))"
    unfolding walk_prov_def by auto
  have prov: "\<forall>t\<in>set walked. t \<in> set seeds \<or>
        (\<exists>u\<in>set walked. \<exists>e. VString e \<in> set (walk_key_values a (metadata u)) \<and>
           (if e = [] then t \<in> set (all_deps u) else resolve e u = Some t))"
  proof
    fix t assume "t \<in> set walked"
    with named have "t \<in> set seeds \<or> (\<exists>u\<in>set walked. t \<in> set (named_by a u))" by auto
    then show "t \<in> set seeds \<or>
        (\<exists>u\<in>set walked. \<exists>e. VString e \<in> set (walk_key_values a (metadata u)) \<and>
           (if e = [] then t \<in> set (all_deps u) else resolve e u = Some t))"
    proof
      assume "t \<in> set seeds" then show ?thesis by simp
    next
      assume "\<exists>u\<in>set walked. t \<in> set (named_by a u)"
      then obtain u where u: "u \<in> set walked" "t \<in> set (named_by a u)" by blast
      from named_by_entry [OF u(2)] obtain e
        where "VString e \<in> set (walk_entries a (metadata u))"
          and "if e = [] then t \<in> set (all_deps u) else resolve e u = Some t"
        by blast
      with u(1) have "\<exists>u\<in>set walked. \<exists>e. VString e \<in> set (walk_key_values a (metadata u)) \<and>
           (if e = [] then t \<in> set (all_deps u) else resolve e u = Some t)"
        unfolding eq by blast
      then show ?thesis ..
    qed
  qed
  have succ: "err = None \<longrightarrow>
        set seeds \<subseteq> set walked \<and>
        (\<forall>u\<in>set walked. \<forall>e. VString e \<in> set (walk_key_values a (metadata u)) \<longrightarrow>
           (if e = [] then set (all_deps u) \<subseteq> set walked
            else \<exists>t\<in>set walked. resolve e u = Some t)) \<and>
        result = concat (map (\<lambda>t. extract_values a (metadata t)) walked)"
  proof
    assume "err = None"
    with run have w: "walk_deps a seeds ([], []) = Inr (walked, result)"
      by (auto simp: WalkMetadata_def split: sum.splits prod.splits)
    from walk_success(3) [OF w] obtain N where N: "walked = N" "result = exs a N"
        "set seeds \<subseteq> set walked" "\<forall>u\<in>set N. set (named_by a u) \<subseteq> set walked"
        "\<forall>u\<in>set N. entries_ok a u"
      unfolding walk_inv_def by auto
    have clos: "\<forall>u\<in>set walked. \<forall>e. VString e \<in> set (walk_key_values a (metadata u)) \<longrightarrow>
          (if e = [] then set (all_deps u) \<subseteq> set walked
           else \<exists>t\<in>set walked. resolve e u = Some t)"
    proof (intro ballI allI impI)
      fix u e assume u: "u \<in> set walked" and e: "VString e \<in> set (walk_key_values a (metadata u))"
      from u N(1,4,5) have sub: "set (named_by a u) \<subseteq> set walked" and eo: "entries_ok a u"
        by simp_all
      from entries_ok_next [OF eo] obtain nk where nk: "next_walk_keys a (metadata u) = Inr nk" ..
      show "if e = [] then set (all_deps u) \<subseteq> set walked else \<exists>t\<in>set walked. resolve e u = Some t"
      proof (cases "e = []")
        case True
        have "set (all_deps u) \<subseteq> set (named_by a u)"
          using e True eq by (auto simp: named_by_iff [OF nk])
        with sub True show ?thesis by auto
      next
        case False
        from entries_ok_resolve [OF eo _ False] e eq obtain t where t: "resolve e u = Some t"
          by auto
        with e False eq have "t \<in> set (named_by a u)"
          by (auto simp: named_by_iff [OF nk])
        with sub t False show ?thesis by auto
      qed
    qed
    from N(1,2,3) clos
    show "set seeds \<subseteq> set walked \<and>
        (\<forall>u\<in>set walked. \<forall>e. VString e \<in> set (walk_key_values a (metadata u)) \<longrightarrow>
           (if e = [] then set (all_deps u) \<subseteq> set walked
            else \<exists>t\<in>set walked. resolve e u = Some t)) \<and>
        result = concat (map (\<lambda>t. extract_values a (metadata t)) walked)"
      by (simp add: exs_def)
  qed
  have fail: "err \<noteq> None \<longrightarrow> result = []"
    using run by (auto simp: WalkMetadata_def split: sum.splits prod.splits)
  from dist prov succ fail show ?thesis by (intro conjI)
qed

theorem WalkMetadata_barrier_witness:
  "WalkMetadata (ex_args [''a''] [''walk'']) [ex_one] =
     ([VString ''foo'', VString ''bar''], [ex_one, ex_two], None) \<and>
   ex_three \<notin> set [ex_one, ex_two] \<and>
   ex_three \<in> set (public_deps ex_one) \<and>
   [VString ''foo'', VString ''bar''] =
     concat (map (\<lambda>t. extract_values (ex_args [''a''] [''walk'']) (metadata t)) [ex_one, ex_two])"
proof -
  have run: "WalkMetadata (ex_args [''a''] [''walk'']) [ex_one] =
     ([VString ''foo'', VString ''bar''], [ex_one, ex_two], None)"
    by (simp add: walk_eval ex_meta_defs)
  have ne: "keys_to_walk (ex_args [''a''] [''walk'']) \<noteq> []"
    and nb: "[] \<notin> set (keys_to_walk (ex_args [''a''] [''walk'']))"
    by (simp_all add: ex_args_def)
  from WalkMetadata_barrier [OF run ne nb, THEN conjunct2, THEN conjunct2, THEN conjunct1,
         THEN mp, OF refl, THEN conjunct2, THEN conjunct2]
  have v: "[VString ''foo'', VString ''bar''] =
     concat (map (\<lambda>t. extract_values (ex_args [''a''] [''walk'']) (metadata t)) [ex_one, ex_two])" .
  have n: "ex_three \<notin> set [ex_one, ex_two]" and p: "ex_three \<in> set (public_deps ex_one)"
    by (simp_all add: ex_meta_defs)
  show ?thesis by (intro conjI) (fact run, fact n, fact p, fact v)
qed

text \<open>
  The claim without the empty string among the walk-key values does not hold: the walk keys
  are \<^verbatim>\<open>["walk"]\<close>, the seed \<^verbatim>\<open>//foo:one\<close> has \<^verbatim>\<open>walk = [""]\<close>; no walk-key value
  of a visited target is a label, and yet \<^verbatim>\<open>//foo:two\<close> and \<^verbatim>\<open>//foo:three\<close> are
  visited and their values collected.
\<close>

theorem WalkMetadata_barrier_counterexample:
  "keys_to_walk (ex_args [''a''] [''walk'']) \<noteq> [] \<and>
   [] \<notin> set (keys_to_walk (ex_args [''a''] [''walk''])) \<and>
   WalkMetadata (ex_args [''a''] [''walk'']) [ex_open] =
     ([VString ''foo'', VString ''bar'', VString ''baz''], [ex_open, ex_two, ex_three], None) \<and>
   ex_three \<notin> set [ex_open] \<and>
   \<not> (\<exists>u\<in>set [ex_open, ex_two, ex_three].
        \<exists>e. VString e \<in> set (walk_key_values (ex_args [''a''] [''walk'']) (metadata u)) \<and> e \<noteq> [])"
proof -
  have ne: "keys_to_walk (ex_args [''a''] [''walk'']) \<noteq> []"
    and nb: "[] \<notin> set (keys_to_walk (ex_args [''a''] [''walk'']))"
    by (simp_all add: ex_args_def)
  have run: "WalkMetadata (ex_args [''a''] [''walk'']) [ex_open] =
     ([VString ''foo'', VString ''bar'', VString ''baz''], [ex_open, ex_two, ex_three], None)"
    by (simp add: walk_eval ex_meta_defs)
  have n: "ex_three \<notin> set [ex_open]"
    by (simp add: ex_meta_defs)
  have v: "\<not> (\<exists>u\<in>set [ex_open, ex_two, ex_three].
        \<exists>e. VString e \<in> set (walk_key_values (ex_args [''a''] [''walk'']) (metadata u)) \<and> e \<noteq> [])"
    by (simp add: walk_key_values_def ex_args_def ex_metadata_def ex_meta_defs)
  show ?thesis by (intro conjI) (fact ne, fact nb, fact run, fact n, fact v)
qed

text \<open>
  C5, as amended. When a visited target has a walk-key value that is a non-empty label
  resolving to none of its direct or transitive dependencies, the walk fails: the result is
  empty and the error is populated. The error is the message \<^verbatim>\<open>I was expecting <label>
  to be a dependency of <T.label>. Make sure it's included in the deps or data_deps.\<close> for
  such a label of such a visited target \<^verbatim>\<open>T\<close>, or else it is a type error and some
  visited target has a walk-key value that is not a string. The scenario of
  \<^verbatim>\<open>CollectWithError\<close> is the instance that follows.
\<close>

theorem WalkMetadata_unresolved_label:
  assumes run: "WalkMetadata a seeds = (result, walked, err)"
    and viol: "\<exists>t\<in>set walked. \<exists>e. VString e \<in> set (walk_key_values a (metadata t)) \<and>
                 e \<noteq> [] \<and> resolve e t = None"
  shows "result = [] \<and> err \<noteq> None \<and>
     ((\<exists>t\<in>set walked. \<exists>e. VString e \<in> set (walk_key_values a (metadata t)) \<and> e \<noteq> [] \<and>
         resolve e t = None \<and> err = Some (barrier_error e t)) \<or>
      (is_type_error err \<and>
       (\<exists>u\<in>set walked. \<exists>v\<in>set (walk_key_values a (metadata u)). type_of v \<noteq> STRING)))"
proof (cases "walk_deps a seeds ([], [])")
  case (Inr st)
  obtain W R where st: "st = (W, R)" by (cases st)
  with Inr run have "walked = W" by (simp add: WalkMetadata_def)
  moreover from walk_success(3) [OF Inr] st have "\<forall>u\<in>set W. entries_ok a u"
    unfolding walk_inv_def by auto
  ultimately have all_ok: "\<forall>u\<in>set walked. entries_ok a u" by simp
  from viol obtain t e where t: "t \<in> set walked"
    and e: "VString e \<in> set (walk_key_values a (metadata t))" "e \<noteq> []" "resolve e t = None"
    by blast
  from all_ok t have "entries_ok a t" by simp
  from entries_ok_resolve [OF this walk_key_values_entries [OF e(1)] e(2)] e(3)
  show ?thesis by simp
next
  case (Inl f)
  obtain x W where f: "f = (x, W)" by (cases f)
  with Inl run have r: "result = []" "walked = W" "err = Some x"
    by (simp_all add: WalkMetadata_def)
  from walk_failure(3) [OF Inl [unfolded f]] have "failure_at a x W \<or> type_failure_at a x W" .
  then have "(\<exists>t\<in>set W. \<exists>e. VString e \<in> set (walk_key_values a (metadata t)) \<and> e \<noteq> [] \<and>
         resolve e t = None \<and> x = barrier_error e t) \<or>
      (is_type_error (Some x) \<and>
       (\<exists>u\<in>set W. \<exists>v\<in>set (walk_key_values a (metadata u)). type_of v \<noteq> STRING))"
  proof
    assume "failure_at a x W"
    then obtain u nk e where u: "u \<in> set W" "next_walk_keys a (metadata u) = Inr nk" "e \<in> set nk"
      "entry_targets u e = Inl x"
      unfolding failure_at_def by blast
    from u(4) have x: "e \<noteq> []" "resolve e u = None" "x = barrier_error e u"
      by (simp_all add: entry_targets_Inl)
    from u(2,3) have "VString e \<in> set (walk_entries a (metadata u))"
      by (simp add: next_walk_keys_entries)
    from walk_entries_values [OF this x(1)]
    have "VString e \<in> set (walk_key_values a (metadata u))" .
    with u(1) x have "\<exists>t\<in>set W. \<exists>e. VString e \<in> set (walk_key_values a (metadata t)) \<and> e \<noteq> [] \<and>
         resolve e t = None \<and> x = barrier_error e t"
      by blast
    then show ?thesis ..
  next
    assume "type_failure_at a x W"
    then obtain u where u: "u \<in> set W" "next_walk_keys a (metadata u) = Inl x"
      unfolding type_failure_at_def by blast
    from label_strings_Inl [OF u(2) [unfolded next_walk_keys_def]]
    obtain v where t: "is_type_error (Some x)"
      and v: "v \<in> set (walk_entries a (metadata u))" "type_of v \<noteq> STRING"
      by blast
    from walk_entries_not_string [OF v] u(1) v(2)
    have "\<exists>u\<in>set W. \<exists>v\<in>set (walk_key_values a (metadata u)). type_of v \<noteq> STRING"
      by blast
    with t show ?thesis by simp
  qed
  with r show ?thesis by simp
qed

theorem WalkMetadata_unresolved_label_witness:
  "WalkMetadata (ex_args [''a''] [''walk'']) [ex_missing] =
     ([], [ex_missing],
      Some (Err ''I was expecting //foo:missing to be a dependency of //foo:one. Make sure it's included in the deps or data_deps.'' '''')) \<and>
   (\<exists>t\<in>set [ex_missing]. \<exists>e. VString e \<in> set (walk_key_values (ex_args [''a''] [''walk'']) (metadata t)) \<and>
      e \<noteq> [] \<and> resolve e t = None \<and>
      Some (Err ''I was expecting //foo:missing to be a dependency of //foo:one. Make sure it's included in the deps or data_deps.'' '''') =
        Some (barrier_error e t))"
proof -
  have run: "WalkMetadata (ex_args [''a''] [''walk'']) [ex_missing] =
     ([], [ex_missing],
      Some (Err ''I was expecting //foo:missing to be a dependency of //foo:one. Make sure it's included in the deps or data_deps.'' ''''))"
    by (simp add: walk_eval ex_meta_defs)
  have viol: "\<exists>t\<in>set [ex_missing]. \<exists>e. VString e \<in> set (walk_key_values (ex_args [''a''] [''walk'']) (metadata t)) \<and>
                 e \<noteq> [] \<and> resolve e t = None"
    by (simp add: walk_key_values_def resolve_def ex_args_def ex_metadata_def ex_meta_defs)
  have nt: "\<not> is_type_error (Some (Err m h))" for m h
    by simp
  from WalkMetadata_unresolved_label [OF run viol, THEN conjunct2, THEN conjunct2]
  have c: "\<exists>t\<in>set [ex_missing]. \<exists>e. VString e \<in> set (walk_key_values (ex_args [''a''] [''walk'']) (metadata t)) \<and>
      e \<noteq> [] \<and> resolve e t = None \<and>
      Some (Err ''I was expecting //foo:missing to be a dependency of //foo:one. Make sure it's included in the deps or data_deps.'' '''') =
        Some (barrier_error e t)"
  proof (rule disjE)
    assume "is_type_error (Some (Err ''I was expecting //foo:missing to be a dependency of //foo:one. Make sure it's included in the deps or data_deps.'' '''')) \<and>
       (\<exists>u\<in>set [ex_missing]. \<exists>v\<in>set (walk_key_values (ex_args [''a''] [''walk'']) (metadata u)). type_of v \<noteq> STRING)"
    then have "is_type_error (Some (Err ''I was expecting //foo:missing to be a dependency of //foo:one. Make sure it's included in the deps or data_deps.'' ''''))" ..
    with nt show ?thesis ..
  qed
  show ?thesis by (intro conjI) (fact run, fact c)
qed

text \<open>
  The claim without the type of the walk-key values does not hold: the seed \<^verbatim>\<open>//foo:one\<close>
  has \<^verbatim>\<open>walk = ["//foo:missing", 1]\<close> and no dependency; the label resolves to no
  dependency, and the walk fails with the type error of the integer, which is none of the
  messages of an unresolved label.
\<close>

theorem WalkMetadata_unresolved_label_counterexample:
  "WalkMetadata (ex_args [''a''] [''walk'']) [ex_mistyped] =
     ([], [ex_mistyped], Some (TypeErr STRING INTEGER)) \<and>
   VString ''//foo:missing'' \<in>
     set (walk_key_values (ex_args [''a''] [''walk'']) (metadata ex_mistyped)) \<and>
   resolve ''//foo:missing'' ex_mistyped = None \<and>
   (\<forall>e t. Some (TypeErr STRING INTEGER) \<noteq> Some (barrier_error e t))"
proof -
  have run: "WalkMetadata (ex_args [''a''] [''walk'']) [ex_mistyped] =
     ([], [ex_mistyped], Some (TypeErr STRING INTEGER))"
    by (simp add: walk_eval ex_meta_defs)
  have v: "VString ''//foo:missing'' \<in>
     set (walk_key_values (ex_args [''a''] [''walk'']) (metadata ex_mistyped))"
    by (simp add: walk_key_values_def ex_args_def ex_metadata_def ex_meta_defs)
  have r: "resolve ''//foo:missing'' ex_mistyped = None"
    by (simp add: resolve_def ex_meta_defs)
  have m: "\<forall>e t. Some (TypeErr STRING INTEGER) \<noteq> Some (barrier_error e t)"
    by (simp add: barrier_error_def)
  show ?thesis by (intro conjI) (fact run, fact v, fact r, fact m)
qed

end
